theory Spec2Isabelle
  imports Main "HOL-Library.Word"
begin

section \<open>Packet identifiers (paho/message\_ids.go)\<close>

text \<open>
  \<^verbatim>\<open>ErrNoMoreIDs\<close> is the only error value of the package that the functions below return.
\<close>

datatype error = ErrNoMoreIDs

text \<open>
  \<^verbatim>\<open>type MIDs struct { sync.Mutex; index map[uint16]*CPContext; lastIdUsed uint16 }\<close>.
  The map is a partial function on 16-bit words; a key is present exactly when the map is
  not \<open>None\<close> there (the stored pointer may itself be nil, which is a value of \<open>'c\<close>).
  \<^verbatim>\<open>Request\<close>, \<^verbatim>\<open>Get\<close> and \<^verbatim>\<open>Free\<close> run under the mutex, so each is one atomic state
  transformer (\<^verbatim>\<open>Clear\<close> takes no lock).
\<close>

record 'c MIDs =
  index :: "16 word \<rightharpoonup> 'c"
  lastIdUsed :: "16 word"

text \<open>
  The loop of \<^verbatim>\<open>getNextId\<close>: \<^verbatim>\<open>for i := startFrom; i < 65535; i++\<close>, returning the
  first \<open>i\<close> that is not a key, and 0 when the loop ends.
\<close>

function getNextId_loop :: "(16 word \<rightharpoonup> 'c) \<Rightarrow> 16 word \<Rightarrow> 16 word" where
  "getNextId_loop idx i =
     (if i < 65535 then (if idx i = None then i else getNextId_loop idx (i + 1)) else 0)"
  by pat_completeness auto
termination
  by (relation "measure (\<lambda>(idx, i). 65535 - unat i)")
     (simp_all add: word_less_nat_alt unat_word_ariths)

declare getNextId_loop.simps [simp del]

definition getNextId :: "'c MIDs \<Rightarrow> 16 word \<Rightarrow> 16 word" where
  "getNextId m startFrom =
     (let startFrom = (if 65535 < startFrom then 1 else startFrom)
      in getNextId_loop (index m) startFrom)"

text \<open>
  \<^verbatim>\<open>Request\<close> returns \<^verbatim>\<open>(i, nil)\<close> or \<^verbatim>\<open>(0, ErrNoMoreIDs)\<close>; the model returns
  \<open>Inr i\<close> or \<open>Inl ErrNoMoreIDs\<close>, together with the state the call leaves behind
  (the increment of \<^verbatim>\<open>lastIdUsed\<close> is kept on the error path too).
\<close>

definition Request :: "'c MIDs \<Rightarrow> 'c \<Rightarrow> (error + 16 word) \<times> 'c MIDs" where
  "Request m c =
     (let m1 = (if lastIdUsed m < 65535 then m\<lparr>lastIdUsed := lastIdUsed m + 1\<rparr>
                else m\<lparr>lastIdUsed := 1\<rparr>);
          i = lastIdUsed m1
      in if index m1 i = None then (Inr i, m1\<lparr>index := (index m1)(i \<mapsto> c)\<rparr>)
         else let i = getNextId m1 i
              in if 0 < i then (Inr i, m1\<lparr>index := (index m1)(i \<mapsto> c), lastIdUsed := i\<rparr>)
                 else (Inl ErrNoMoreIDs, m1))"

definition Get :: "'c MIDs \<Rightarrow> 16 word \<Rightarrow> 'c option" where
  "Get m i = index m i"

definition Free :: "'c MIDs \<Rightarrow> 16 word \<Rightarrow> 'c MIDs" where
  "Free m i = m\<lparr>index := (index m)(i := None)\<rparr>"

definition Clear :: "'c MIDs \<Rightarrow> 'c MIDs" where
  "Clear m = m\<lparr>index := Map.empty\<rparr>"

text \<open>
  A caller issuing one \<^verbatim>\<open>Request\<close> per waiter of a list, in order, with no other call in
  between; the results of all calls are collected.
\<close>

fun Requests :: "'c MIDs \<Rightarrow> 'c list \<Rightarrow> (error + 16 word) list \<times> 'c MIDs" where
  "Requests m [] = ([], m)"
| "Requests m (c # cs) =
     (case Request m c of (res, m1) \<Rightarrow>
        (case Requests m1 cs of (ress, m2) \<Rightarrow> (res # ress, m2)))"

fun issued :: "(error + 16 word) list \<Rightarrow> 16 word list" where
  "issued [] = []"
| "issued (Inr i # ress) = i # issued ress"
| "issued (Inl e # ress) = issued ress"

section \<open>Topic matching (paho/router.go and extensions/routercontext)\<close>

text \<open>
  The functions \<^verbatim>\<open>match\<close>, \<^verbatim>\<open>matchDeep\<close>, \<^verbatim>\<open>routeIncludesTopic\<close>, \<^verbatim>\<open>routeSplit\<close> and
  \<^verbatim>\<open>topicSplit\<close> have the same text in both packages, so one embedding serves both.
  A Go string is a sequence of bytes, as \<^typ>\<open>string\<close> is. The two run-time panics that the
  routers can raise by themselves are values of \<open>fault\<close>.
\<close>

datatype fault = NilDereference | SliceBoundsOutOfRange

text \<open>
  \<^verbatim>\<open>strings.Split(s, "/")\<close> of the Go library: the pieces between the separators, one more
  than there are separators, so one empty piece for the empty string.
\<close>

fun strings_Split :: "string \<Rightarrow> char \<Rightarrow> string list" where
  "strings_Split [] sep = [[]]"
| "strings_Split (c # cs) sep =
     (if c = sep then [] # strings_Split cs sep
      else (case strings_Split cs sep of
              [] \<Rightarrow> [[c]]
            | piece # pieces \<Rightarrow> (c # piece) # pieces))"

text \<open>\<^verbatim>\<open>strings.Join\<close> with a one-byte separator, the inverse of the split.\<close>

fun strings_Join :: "string list \<Rightarrow> char \<Rightarrow> string" where
  "strings_Join [] sep = []"
| "strings_Join [piece] sep = piece"
| "strings_Join (piece # pieces) sep = piece @ sep # strings_Join pieces sep"

definition strings_HasPrefix :: "string \<Rightarrow> string \<Rightarrow> bool" where
  "strings_HasPrefix s pre = (length pre \<le> length s \<and> take (length pre) s = pre)"

text \<open>
  \<^verbatim>\<open>strings.Split(route, "/")[2:]\<close> panics when the split has fewer than two pieces; a nil
  slice and an empty slice are both the empty list.
\<close>

definition routeSplit :: "string \<Rightarrow> fault + string list" where
  "routeSplit route =
     (if length route = 0 then Inr []
      else if strings_HasPrefix route ''$share'' then
        (let pieces = strings_Split route CHR ''/''
         in if 2 \<le> length pieces then Inr (drop 2 pieces) else Inl SliceBoundsOutOfRange)
      else Inr (strings_Split route CHR ''/''))"

definition topicSplit :: "string \<Rightarrow> string list" where
  "topicSplit topic = (if length topic = 0 then [] else strings_Split topic CHR ''/'')"

text \<open>
  \<^verbatim>\<open>matchDeep\<close>: the patterns are the tests on \<^verbatim>\<open>len(route)\<close> and \<^verbatim>\<open>len(topic)\<close>, in the
  order of the source; \<open>r\<close> is \<^verbatim>\<open>route[0]\<close> and \<open>rs\<close> is \<^verbatim>\<open>route[1:]\<close>.
\<close>

fun matchDeep :: "string list \<Rightarrow> string list \<Rightarrow> bool" where
  "matchDeep [] topic = (length topic = 0)"
| "matchDeep (r # rs) [] = (r = ''#'')"
| "matchDeep (r # rs) (t # ts) =
     (if r = ''#'' then True
      else if r = ''+'' \<or> r = t then matchDeep rs ts
      else False)"

definition routeIncludesTopic :: "string \<Rightarrow> string \<Rightarrow> fault + bool" where
  "routeIncludesTopic route topic =
     (case routeSplit route of
        Inl e \<Rightarrow> Inl e
      | Inr levels \<Rightarrow> Inr (matchDeep levels (topicSplit topic)))"

text \<open>\<^verbatim>\<open>route == topic || routeIncludesTopic(route, topic)\<close>: the right operand is not
  evaluated when the strings are equal.\<close>

definition match :: "string \<Rightarrow> string \<Rightarrow> fault + bool" where
  "match route topic = (if route = topic then Inr True else routeIncludesTopic route topic)"

section \<open>Routers (paho/router.go and extensions/routercontext)\<close>

text \<open>
  Modelled from the spec: the decoded inbound publish. The structs \<^verbatim>\<open>packets.Publish\<close> and
  \<^verbatim>\<open>packets.Properties\<close> and the function \<^verbatim>\<open>PublishFromPacketPublish\<close> are declared in files
  that are not among the sources; the routers read the fields \<^verbatim>\<open>Topic\<close>,
  \<^verbatim>\<open>Properties\<close> (a pointer, \<open>None\<close> when nil) and \<^verbatim>\<open>Properties.TopicAlias\<close> (a pointer
  to a \<^verbatim>\<open>uint16\<close>, \<open>None\<close> when nil), and the message handed to the handlers keeps the
  topic name and the payload of the packet.
\<close>

record packets_Properties =
  TopicAlias :: "16 word option"

record packets_Publish =
  Topic :: string
  Payload :: string
  Properties :: "packets_Properties option"

record Publish =
  Publish_Topic :: string
  Publish_Payload :: string

text \<open>
  Modelled from the spec: \<^verbatim>\<open>PublishFromPacketPublish\<close> (its file is not among the sources)
  builds the message for the handlers from the packet; the message keeps the packet's topic
  name and payload.
\<close>

definition PublishFromPacketPublish :: "packets_Publish \<Rightarrow> Publish" where
  "PublishFromPacketPublish pb = \<lparr>Publish_Topic = Topic pb, Publish_Payload = Payload pb\<rparr>"

text \<open>
  A handler is a Go closure: it is run for its effect on the state \<open>'w\<close> of the application.
  \<^verbatim>\<open>MessageHandler\<close> is \<^verbatim>\<open>func(*Publish)\<close>; \<^verbatim>\<open>Handler\<close> and \<^verbatim>\<open>MessageContextHandler\<close>
  are \<^verbatim>\<open>func(context.Context, *Publish)\<close>; a middleware maps a handler to a handler.
  Handlers are taken to return: a handler that panics ends the dispatch at that call.
  The contexts that the routers build are \<^verbatim>\<open>context.Background()\<close> and
  \<^verbatim>\<open>context.WithCancel\<close> of it.
\<close>

datatype Context = Background | WithCancel Context

type_synonym 'w MessageHandler = "Publish \<Rightarrow> 'w \<Rightarrow> 'w"
type_synonym 'w Handler = "Context \<Rightarrow> Publish \<Rightarrow> 'w \<Rightarrow> 'w"
type_synonym 'w Middleware = "'w Handler \<Rightarrow> 'w Handler"

text \<open>
  Each call that a dispatch makes is recorded, in order, with the place it is made from:
  \<open>Registered route f\<close> for the call of \<open>f\<close> in the loop over the handlers of \<open>route\<close>,
  \<open>Default f\<close> for the call of the default handler after the loop.
\<close>

datatype 'h call = Registered string 'h | Default 'h

fun registered_calls :: "'h call list \<Rightarrow> (string \<times> 'h) list" where
  "registered_calls [] = []"
| "registered_calls (Registered route f # tr) = (route, f) # registered_calls tr"
| "registered_calls (Default f # tr) = registered_calls tr"

fun default_calls :: "'h call list \<Rightarrow> 'h list" where
  "default_calls [] = []"
| "default_calls (Registered route f # tr) = default_calls tr"
| "default_calls (Default f # tr) = f # default_calls tr"

text \<open>
  \<^verbatim>\<open>StandardRouter\<close> has the fields \<^verbatim>\<open>defaultHandler\<close> (nil is \<open>None\<close>), \<^verbatim>\<open>subscriptions\<close>
  and \<^verbatim>\<open>aliases\<close>; \<^verbatim>\<open>routercontext.Router\<close> and \<^verbatim>\<open>StandardContextRouter\<close> have these and
  \<^verbatim>\<open>middlewares\<close>, with handlers that take a context. The record is therefore polymorphic in
  the handler type and the second record extends the first. The map \<^verbatim>\<open>subscriptions\<close> is the
  list of its entries in the order in which \<^verbatim>\<open>range\<close> visits them; Go leaves that order open,
  and the theorems hold for every list. The lock and the debug logger are left out here (the
  lock has a section of its own below).
\<close>

record 'h StandardRouter =
  defaultHandler :: "'h option"
  subscriptions :: "(string \<times> 'h list) list"
  aliases :: "16 word \<rightharpoonup> string"

record 'h Router = "'h StandardRouter" +
  middlewares :: "('h \<Rightarrow> 'h) list"

definition NewStandardRouter :: "'h StandardRouter" where
  "NewStandardRouter = \<lparr>defaultHandler = None, subscriptions = [], aliases = Map.empty\<rparr>"

definition NewRouter :: "'h Router" where
  "NewRouter =
     \<lparr>defaultHandler = None, subscriptions = [], aliases = Map.empty, middlewares = []\<rparr>"

text \<open>\<^verbatim>\<open>r.subscriptions[topic] = append(r.subscriptions[topic], h)\<close>\<close>

fun subscriptions_append :: "(string \<times> 'h list) list \<Rightarrow> string \<Rightarrow> 'h \<Rightarrow> (string \<times> 'h list) list" where
  "subscriptions_append [] topic h = [(topic, [h])]"
| "subscriptions_append ((route, handlers) # rest) topic h =
     (if route = topic then (route, handlers @ [h]) # rest
      else (route, handlers) # subscriptions_append rest topic h)"

definition RegisterHandler ::
  "('h, 'z) StandardRouter_scheme \<Rightarrow> string \<Rightarrow> 'h \<Rightarrow> ('h, 'z) StandardRouter_scheme" where
  "RegisterHandler r topic h = r\<lparr>subscriptions := subscriptions_append (subscriptions r) topic h\<rparr>"

definition UnregisterHandler ::
  "('h, 'z) StandardRouter_scheme \<Rightarrow> string \<Rightarrow> ('h, 'z) StandardRouter_scheme" where
  "UnregisterHandler r topic =
     r\<lparr>subscriptions := filter (\<lambda>(route, handlers). route \<noteq> topic) (subscriptions r)\<rparr>"

definition DefaultHandler ::
  "('h, 'z) StandardRouter_scheme \<Rightarrow> 'h option \<Rightarrow> ('h, 'z) StandardRouter_scheme" where
  "DefaultHandler r h = r\<lparr>defaultHandler := h\<rparr>"

text \<open>\<^verbatim>\<open>Router.Use(m ...Middleware)\<close> and \<^verbatim>\<open>StandardContextRouter.Use(m)\<close>\<close>

definition Router_Use :: "'h Router \<Rightarrow> ('h \<Rightarrow> 'h) list \<Rightarrow> 'h Router" where
  "Router_Use r m = r\<lparr>middlewares := middlewares r @ m\<rparr>"

definition StandardContextRouter_Use :: "'h Router \<Rightarrow> ('h \<Rightarrow> 'h) \<Rightarrow> 'h Router" where
  "StandardContextRouter_Use r m = r\<lparr>middlewares := middlewares r @ [m]\<rparr>"

text \<open>
  \<^verbatim>\<open>wrapHandler\<close>, the same text in both context routers:
  \<^verbatim>\<open>for i := len(r.middlewares) - 1; i >= 0; i-- { h = r.middlewares[i](h) }\<close>.
\<close>

function wrapHandler_loop :: "('h \<Rightarrow> 'h) list \<Rightarrow> int \<Rightarrow> 'h \<Rightarrow> 'h" where
  "wrapHandler_loop ms i h =
     (if 0 \<le> i then wrapHandler_loop ms (i - 1) ((ms ! nat i) h) else h)"
  by pat_completeness auto
termination
  by (relation "measure (\<lambda>(ms, i, h). nat (i + 1))") simp_all

declare wrapHandler_loop.simps [simp del]

definition Router_wrapHandler :: "'h Router \<Rightarrow> 'h \<Rightarrow> 'h" where
  "Router_wrapHandler r h =
     (if length (middlewares r) = 0 then h
      else wrapHandler_loop (middlewares r) (int (length (middlewares r)) - 1) h)"

definition StandardContextRouter_wrapHandler :: "'h Router \<Rightarrow> 'h \<Rightarrow> 'h" where
  "StandardContextRouter_wrapHandler r h =
     (if length (middlewares r) = 0 then h
      else wrapHandler_loop (middlewares r) (int (length (middlewares r)) - 1) h)"

text \<open>
  The alias block of \<^verbatim>\<open>Route\<close>, the same text in the three routers: from
  \<^verbatim>\<open>var topic string\<close> to the end of the \<^verbatim>\<open>if pb.Properties.TopicAlias != nil\<close> statement.
  It reads \<^verbatim>\<open>pb.Properties.TopicAlias\<close> first, which panics when \<^verbatim>\<open>pb.Properties\<close> is nil.
  The result is the alias map after the block and the value of \<^verbatim>\<open>topic\<close>.
\<close>

definition Route_topic ::
  "(16 word \<rightharpoonup> string) \<Rightarrow> packets_Publish \<Rightarrow> Publish \<Rightarrow> fault + ((16 word \<rightharpoonup> string) \<times> string)" where
  "Route_topic als pb m =
     (case Properties pb of
        None \<Rightarrow> Inl NilDereference
      | Some props \<Rightarrow>
          (case TopicAlias props of
             Some alias \<Rightarrow>
               (let als1 = (if Topic pb \<noteq> [] then als(alias \<mapsto> Topic pb) else als)
                in (case als1 alias of
                      Some t \<Rightarrow> Inr (als1, t)
                    | None \<Rightarrow> Inr (als1, [])))
           | None \<Rightarrow> Inr (als, Publish_Topic m)))"

text \<open>
  The loops of \<^verbatim>\<open>StandardRouter.Route\<close>. The state of the loops is \<^verbatim>\<open>handlerCalled\<close>, the
  state of the application and the calls made so far.
\<close>

fun StandardRouter_handlers ::
  "string \<Rightarrow> 'w MessageHandler list \<Rightarrow> Publish \<Rightarrow>
   bool \<times> 'w \<times> 'w MessageHandler call list \<Rightarrow> bool \<times> 'w \<times> 'w MessageHandler call list" where
  "StandardRouter_handlers route [] m st = st"
| "StandardRouter_handlers route (handler # handlers) m (handlerCalled, w, tr) =
     StandardRouter_handlers route handlers m
       (True, handler m w, tr @ [Registered route handler])"

fun StandardRouter_range ::
  "(string \<times> 'w MessageHandler list) list \<Rightarrow> string \<Rightarrow> Publish \<Rightarrow>
   bool \<times> 'w \<times> 'w MessageHandler call list \<Rightarrow>
   fault + (bool \<times> 'w \<times> 'w MessageHandler call list)" where
  "StandardRouter_range [] topic m st = Inr st"
| "StandardRouter_range ((route, handlers) # rest) topic m st =
     (case match route topic of
        Inl e \<Rightarrow> Inl e
      | Inr matched \<Rightarrow>
          StandardRouter_range rest topic m
            (if matched then StandardRouter_handlers route handlers m st else st))"

definition StandardRouter_Route ::
  "'w MessageHandler StandardRouter \<Rightarrow> packets_Publish \<Rightarrow> 'w \<Rightarrow>
   fault + ('w MessageHandler StandardRouter \<times> 'w \<times> 'w MessageHandler call list)" where
  "StandardRouter_Route r pb w =
     (let m = PublishFromPacketPublish pb
      in case Route_topic (aliases r) pb m of
           Inl e \<Rightarrow> Inl e
         | Inr (als, topic) \<Rightarrow>
             (let r1 = r\<lparr>aliases := als\<rparr>
              in case StandardRouter_range (subscriptions r1) topic m (False, w, []) of
                   Inl e \<Rightarrow> Inl e
                 | Inr (handlerCalled, w1, tr) \<Rightarrow>
                     (if \<not> handlerCalled \<and> defaultHandler r1 \<noteq> None
                      then Inr (r1, the (defaultHandler r1) m w1,
                                tr @ [Default (the (defaultHandler r1))])
                      else Inr (r1, w1, tr))))"

text \<open>
  The loops of the two context routers, which call \<^verbatim>\<open>r.wrapHandler(handler)(ctx, m)\<close>;
  \<open>wrap\<close> is \<^verbatim>\<open>r.wrapHandler\<close>.
\<close>

fun Router_handlers ::
  "('w Handler \<Rightarrow> 'w Handler) \<Rightarrow> Context \<Rightarrow> string \<Rightarrow> 'w Handler list \<Rightarrow> Publish \<Rightarrow>
   bool \<times> 'w \<times> 'w Handler call list \<Rightarrow> bool \<times> 'w \<times> 'w Handler call list" where
  "Router_handlers wrap ctx route [] m st = st"
| "Router_handlers wrap ctx route (handler # handlers) m (handlerCalled, w, tr) =
     Router_handlers wrap ctx route handlers m
       (True, wrap handler ctx m w, tr @ [Registered route (wrap handler)])"

fun Router_range ::
  "('w Handler \<Rightarrow> 'w Handler) \<Rightarrow> Context \<Rightarrow> (string \<times> 'w Handler list) list \<Rightarrow> string \<Rightarrow>
   Publish \<Rightarrow> bool \<times> 'w \<times> 'w Handler call list \<Rightarrow>
   fault + (bool \<times> 'w \<times> 'w Handler call list)" where
  "Router_range wrap ctx [] topic m st = Inr st"
| "Router_range wrap ctx ((route, handlers) # rest) topic m st =
     (case match route topic of
        Inl e \<Rightarrow> Inl e
      | Inr matched \<Rightarrow>
          Router_range wrap ctx rest topic m
            (if matched then Router_handlers wrap ctx route handlers m st else st))"

definition Router_Route ::
  "'w Handler Router \<Rightarrow> packets_Publish \<Rightarrow> 'w \<Rightarrow>
   fault + ('w Handler Router \<times> 'w \<times> 'w Handler call list)" where
  "Router_Route r pb w =
     (let m = PublishFromPacketPublish pb;
          ctx = Background
      in case Route_topic (aliases r) pb m of
           Inl e \<Rightarrow> Inl e
         | Inr (als, topic) \<Rightarrow>
             (let r1 = r\<lparr>aliases := als\<rparr>
              in case Router_range (Router_wrapHandler r1) ctx (subscriptions r1) topic m
                        (False, w, []) of
                   Inl e \<Rightarrow> Inl e
                 | Inr (handlerCalled, w1, tr) \<Rightarrow>
                     (if \<not> handlerCalled \<and> defaultHandler r1 \<noteq> None
                      then Inr (r1, Router_wrapHandler r1 (the (defaultHandler r1)) ctx m w1,
                                tr @ [Default (Router_wrapHandler r1 (the (defaultHandler r1)))])
                      else Inr (r1, w1, tr))))"

definition StandardContextRouter_Route ::
  "'w Handler Router \<Rightarrow> packets_Publish \<Rightarrow> 'w \<Rightarrow>
   fault + ('w Handler Router \<times> 'w \<times> 'w Handler call list)" where
  "StandardContextRouter_Route r pb w =
     (let m = PublishFromPacketPublish pb;
          ctx = WithCancel Background
      in case Route_topic (aliases r) pb m of
           Inl e \<Rightarrow> Inl e
         | Inr (als, topic) \<Rightarrow>
             (let r1 = r\<lparr>aliases := als\<rparr>
              in case Router_range (StandardContextRouter_wrapHandler r1) ctx (subscriptions r1)
                        topic m (False, w, []) of
                   Inl e \<Rightarrow> Inl e
                 | Inr (handlerCalled, w1, tr) \<Rightarrow>
                     (if \<not> handlerCalled \<and> defaultHandler r1 \<noteq> None
                      then Inr (r1,
                                StandardContextRouter_wrapHandler r1 (the (defaultHandler r1)) ctx m w1,
                                tr @ [Default (StandardContextRouter_wrapHandler r1
                                                 (the (defaultHandler r1)))])
                      else Inr (r1, w1, tr))))"

section \<open>The lock of the routers\<close>

text \<open>
  The routers embed a \<^verbatim>\<open>sync.RWMutex\<close>. \<^verbatim>\<open>Route\<close> begins with \<^verbatim>\<open>r.RLock()\<close> and
  \<^verbatim>\<open>defer r.RUnlock()\<close>; \<^verbatim>\<open>RegisterHandler\<close>, \<^verbatim>\<open>UnregisterHandler\<close>, \<^verbatim>\<open>DefaultHandler\<close> and
  \<^verbatim>\<open>Use\<close> begin with \<^verbatim>\<open>r.Lock()\<close> and \<^verbatim>\<open>defer r.Unlock()\<close>. For the lock discipline a call
  is the sequence, in program order, of its lock operations and of its accesses to the map
  \<^verbatim>\<open>r.aliases\<close>; goroutines interleave these actions.
\<close>

datatype action =
  RLock | RUnlock | Lock | Unlock | AliasStore "16 word" string | AliasLoad "16 word"

text \<open>
  \<^verbatim>\<open>Route\<close>, in the three routers: the read lock, then the alias block (the store
  \<^verbatim>\<open>r.aliases[*pb.Properties.TopicAlias] = pb.Topic\<close> when the topic is not empty, then the
  lookup), then the scan, which does not touch the alias map, then the deferred unlock,
  which also runs when the call panics.
\<close>

definition Route_actions :: "packets_Publish \<Rightarrow> action list" where
  "Route_actions pb =
     RLock #
     (case Properties pb of
        None \<Rightarrow> []
      | Some props \<Rightarrow>
          (case TopicAlias props of
             None \<Rightarrow> []
           | Some alias \<Rightarrow>
               (if Topic pb \<noteq> [] then [AliasStore alias (Topic pb)] else [])
               @ [AliasLoad alias]))
     @ [RUnlock]"

definition RegisterHandler_actions :: "action list" where
  "RegisterHandler_actions = [Lock, Unlock]"

text \<open>
  The state of a \<^verbatim>\<open>sync.RWMutex\<close>: the number of goroutines that hold it in read mode and
  whether one holds it in write mode. The system is the lock, the alias map and, for each
  goroutine, the actions it has still to perform.
\<close>

record RWMutex =
  readers :: nat
  writer :: bool

record system =
  mu :: RWMutex
  shared_aliases :: "16 word \<rightharpoonup> string"
  goroutines :: "action list list"

text \<open>
  One step of goroutine \<open>i\<close>; \<open>None\<close> when it has finished or its next action blocks
  (\<^verbatim>\<open>RLock\<close> while a writer holds the lock, \<^verbatim>\<open>Lock\<close> while anyone holds it) or is an
  unlock of a lock that is not held.
\<close>

fun perform :: "action \<Rightarrow> RWMutex \<Rightarrow> (16 word \<rightharpoonup> string) \<Rightarrow>
    (RWMutex \<times> (16 word \<rightharpoonup> string)) option" where
  "perform RLock l als = (if writer l then None else Some (l\<lparr>readers := readers l + 1\<rparr>, als))"
| "perform RUnlock l als =
     (if 0 < readers l then Some (l\<lparr>readers := readers l - 1\<rparr>, als) else None)"
| "perform Lock l als =
     (if writer l \<or> 0 < readers l then None else Some (l\<lparr>writer := True\<rparr>, als))"
| "perform Unlock l als = (if writer l then Some (l\<lparr>writer := False\<rparr>, als) else None)"
| "perform (AliasStore alias topic) l als = Some (l, als(alias \<mapsto> topic))"
| "perform (AliasLoad alias) l als = Some (l, als)"

definition step :: "system \<Rightarrow> nat \<Rightarrow> system option" where
  "step s i =
     (if i < length (goroutines s) then
        (case goroutines s ! i of
           [] \<Rightarrow> None
         | act # rest \<Rightarrow>
             (case perform act (mu s) (shared_aliases s) of
                None \<Rightarrow> None
              | Some (l, als) \<Rightarrow>
                  Some \<lparr>mu = l, shared_aliases = als,
                        goroutines = (goroutines s)[i := rest]\<rparr>))
      else None)"

fun run :: "system \<Rightarrow> nat list \<Rightarrow> system option" where
  "run s [] = Some s"
| "run s (i # schedule) = (case step s i of None \<Rightarrow> None | Some s' \<Rightarrow> run s' schedule)"

text \<open>
  A data race on the alias map: two goroutines whose next actions access the same alias,
  at least one of them a store.
\<close>

fun conflicting :: "action list \<Rightarrow> action list \<Rightarrow> bool" where
  "conflicting (AliasStore a t # p) (AliasStore b u # q) = (a = b)"
| "conflicting (AliasStore a t # p) (AliasLoad b # q) = (a = b)"
| "conflicting (AliasLoad a # p) (AliasStore b u # q) = (a = b)"
| "conflicting p q = False"

definition data_race :: "system \<Rightarrow> bool" where
  "data_race s =
     (\<exists>i < length (goroutines s). \<exists>j < length (goroutines s).
        i \<noteq> j \<and> conflicting (goroutines s ! i) (goroutines s ! j))"

section \<open>Descriptions used in the statements\<close>

text \<open>
  The level-by-level comparison in the words of the specification, as the least relation
  closed under its rules: both sequences exhausted is a match; a filter level \<open>#\<close> matches
  whatever remains of the topic (nothing included); a filter level \<open>+\<close> or a level equal to
  the topic's matches when the remainders match; there is no other match.
\<close>

inductive spec_levels_match :: "string list \<Rightarrow> string list \<Rightarrow> bool" where
  both_exhausted: "spec_levels_match [] []"
| multi_level: "spec_levels_match (''#'' # rs) topic"
| single_level: "spec_levels_match rs ts \<Longrightarrow> spec_levels_match (''+'' # rs) (t # ts)"
| literal: "spec_levels_match rs ts \<Longrightarrow> spec_levels_match (t # rs) (t # ts)"

text \<open>
  The handlers registered under the filters that match a topic, each with its filter, in
  the order of the scan and, under one filter, in the order of registration.
\<close>

fun matching_calls :: "(string \<times> 'h list) list \<Rightarrow> string \<Rightarrow> (string \<times> 'h) list" where
  "matching_calls [] topic = []"
| "matching_calls ((route, handlers) # rest) topic =
     (if match route topic = Inr True then map (Pair route) handlers else [])
     @ matching_calls rest topic"

text \<open>
  Handlers and a middleware that write to a log, as the closures of the package's tests
  append to \<^verbatim>\<open>executionOrder\<close>; and a publish whose \<^verbatim>\<open>Properties\<close> is not nil, with or
  without a topic alias.
\<close>

definition log_handler :: "string \<Rightarrow> string list MessageHandler" where
  "log_handler name m w = w @ [name]"

definition log_ctx_handler :: "string \<Rightarrow> string list Handler" where
  "log_ctx_handler name ctx m w = w @ [name]"

definition log_middleware :: "string \<Rightarrow> string list Middleware" where
  "log_middleware name next = (\<lambda>ctx m w. next ctx m (w @ [name @ ''-before'']) @ [name @ ''-after''])"

definition publish :: "string \<Rightarrow> 16 word option \<Rightarrow> packets_Publish" where
  "publish topic alias = \<lparr>Topic = topic, Payload = [], Properties = Some \<lparr>TopicAlias = alias\<rparr>\<rparr>"

section \<open>Theorems about packet identifiers\<close>

lemma uint16_le_max: "\<not> 65535 < (x :: 16 word)"
proof -
  have "unat x < 2 ^ 16" using unsigned_less [of x, where ?'a = nat] by simp
  then show ?thesis by (simp add: word_less_nat_alt)
qed

lemma getNextId_loop_free:
  "getNextId_loop idx s \<noteq> 0 \<Longrightarrow> idx (getNextId_loop idx s) = None"
proof (induction idx s rule: getNextId_loop.induct)
  case (1 idx i)
  show ?case
  proof (cases "i < 65535")
    case True
    note lt = this
    show ?thesis
    proof (cases "idx i = None")
      case True
      with lt show ?thesis by (simp add: getNextId_loop.simps [of idx i])
    next
      case False
      with lt "1.prems" have "getNextId_loop idx (i + 1) \<noteq> 0"
        by (simp add: getNextId_loop.simps [of idx i])
      with lt False "1.IH" have "idx (getNextId_loop idx (i + 1)) = None" by simp
      with lt False show ?thesis by (simp add: getNextId_loop.simps [of idx i])
    qed
  next
    case False
    with "1.prems" show ?thesis by (simp add: getNextId_loop.simps [of idx i])
  qed
qed

lemma Request_success:
  assumes "Request m c = (Inr i, m')"
  shows "i \<noteq> 0 \<and> index m i = None \<and> index m' = (index m)(i \<mapsto> c)"
proof -
  define l where "l = (if lastIdUsed m < 65535 then lastIdUsed m + 1 else 1)"
  have l0: "l \<noteq> 0"
  proof (cases "lastIdUsed m < 65535")
    case True
    then have "unat (lastIdUsed m + 1) = unat (lastIdUsed m) + 1"
      by (simp add: word_less_nat_alt unat_word_ariths)
    then have "lastIdUsed m + 1 \<noteq> 0" by (metis Suc_eq_plus1 nat.distinct(1) unat_0)
    with True show ?thesis by (simp add: l_def)
  next
    case False
    then show ?thesis by (simp add: l_def)
  qed
  show ?thesis
  proof (cases "index m l = None")
    case True
    with assms have "i = l" "index m' = (index m)(l \<mapsto> c)"
      by (auto simp: Request_def Let_def l_def split: if_splits)
    with True l0 show ?thesis by simp
  next
    case False
    define j where "j = getNextId_loop (index m) l"
    from False assms have j: "0 < j" "i = j" "index m' = (index m)(j \<mapsto> c)"
      by (auto simp: Request_def getNextId_def Let_def l_def j_def uint16_le_max
          split: if_splits)
    then have "j \<noteq> 0" by auto
    then have "index m j = None" unfolding j_def by (rule getNextId_loop_free)
    with j \<open>j \<noteq> 0\<close> show ?thesis by simp
  qed
qed

lemma Request_keeps_keys:
  assumes "Request m c = (res, m')" and "index m i \<noteq> None"
  shows "index m' i \<noteq> None"
  using assms by (auto simp: Request_def Let_def split: if_splits)

lemma Request_failure_index:
  assumes "Request m c = (Inl e, m')"
  shows "index m' = index m"
  using assms by (auto simp: Request_def Let_def split: if_splits)

lemma Requests_issued:
  assumes "Requests m cs = (ress, m')"
  shows "distinct (issued ress)
    \<and> (\<forall>i \<in> set (issued ress). i \<noteq> 0 \<and> index m i = None \<and> index m' i \<noteq> None)
    \<and> (\<forall>i. index m i \<noteq> None \<longrightarrow> index m' i \<noteq> None)"
  using assms
proof (induction cs arbitrary: m ress m')
  case Nil
  then show ?case by simp
next
  case (Cons c cs)
  obtain res m1 where req: "Request m c = (res, m1)" by (cases "Request m c")
  obtain ress1 m2 where rest: "Requests m1 cs = (ress1, m2)" by (cases "Requests m1 cs")
  from Cons.prems req rest have eq: "ress = res # ress1" "m' = m2" by simp_all
  note IH = Cons.IH [OF rest]
  have keep: "\<And>i. index m i \<noteq> None \<Longrightarrow> index m1 i \<noteq> None"
    using req by (rule Request_keeps_keys)
  show ?case
  proof (cases res)
    case (Inl e)
    from req Inl have "index m1 = index m" by (simp add: Request_failure_index)
    with IH eq Inl show ?thesis by simp
  next
    case (Inr i)
    from req Inr have i: "i \<noteq> 0" "index m i = None" "index m1 = (index m)(i \<mapsto> c)"
      using Request_success [of m c i m1] by simp_all
    from i have "index m1 i \<noteq> None" by simp
    with IH have notin: "i \<notin> set (issued ress1)" and later: "index m2 i \<noteq> None" by auto
    have free: "\<forall>j \<in> set (issued ress1). index m j = None"
    proof
      fix j assume "j \<in> set (issued ress1)"
      with IH have "index m1 j = None" by simp
      with keep [of j] show "index m j = None" by (cases "index m j") auto
    qed
    from IH keep have "\<forall>j. index m j \<noteq> None \<longrightarrow> index m2 j \<noteq> None" by simp
    with IH notin later free i eq Inr show ?thesis by simp
  qed
qed

lemma uint16_nonzero_range: "(i :: 16 word) \<noteq> 0 \<Longrightarrow> 1 \<le> unat i \<and> unat i \<le> 65535"
proof -
  assume "i \<noteq> 0"
  then have "unat i \<noteq> 0" by (simp add: unat_eq_zero)
  moreover have "unat i < 2 ^ 16" using unsigned_less [of i, where ?'a = nat] by simp
  ultimately show ?thesis by simp
qed

text \<open>
  C9. Every successful \<^verbatim>\<open>Request\<close> returns an identifier in [1, 65535] that was not a key
  of the index immediately before the call. Consequently the identifiers returned by the
  successful calls of any sequence of \<^verbatim>\<open>Request\<close> calls with no \<^verbatim>\<open>Free\<close> in between are
  pairwise distinct, nonzero and were free at the start; when all \<open>n\<close> calls succeed there
  are \<open>n\<close> of them.
\<close>

theorem Request_issues_fresh_nonzero:
  "(Request m c = (Inr i, m') \<longrightarrow> 1 \<le> unat i \<and> unat i \<le> 65535 \<and> index m i = None)
   \<and> distinct (issued (fst (Requests m cs)))
   \<and> (\<forall>j \<in> set (issued (fst (Requests m cs))).
         1 \<le> unat j \<and> unat j \<le> 65535 \<and> index m j = None)
   \<and> ((\<forall>res \<in> set (fst (Requests m cs)). res \<noteq> Inl ErrNoMoreIDs) \<longrightarrow>
         length (issued (fst (Requests m cs))) = length cs)"
proof -
  obtain ress m2 where run: "Requests m cs = (ress, m2)" by (cases "Requests m cs")
  note all = Requests_issued [OF run]
  have one: "Request m c = (Inr i, m') \<longrightarrow> 1 \<le> unat i \<and> unat i \<le> 65535 \<and> index m i = None"
    using Request_success [of m c i m'] uint16_nonzero_range [of i] by blast
  have range: "\<forall>j \<in> set (issued ress). 1 \<le> unat j \<and> unat j \<le> 65535 \<and> index m j = None"
    using all uint16_nonzero_range by blast
  have len: "length (fst (Requests m0 cs0)) = length cs0" for m0 :: "'a MIDs" and cs0
  proof (induction cs0 arbitrary: m0)
    case Nil
    show ?case by simp
  next
    case (Cons c0 cs0)
    obtain res m1 where "Request m0 c0 = (res, m1)" by (cases "Request m0 c0")
    moreover obtain ress1 m3 where "Requests m1 cs0 = (ress1, m3)" by (cases "Requests m1 cs0")
    ultimately show ?case using Cons [of m1] by simp
  qed
  have count: "(\<forall>res \<in> set rs. res \<noteq> Inl ErrNoMoreIDs) \<longrightarrow> length (issued rs) = length rs"
    for rs :: "(error + 16 word) list"
  proof (induction rs)
    case Nil
    show ?case by simp
  next
    case (Cons r rs)
    show ?case
    proof (cases r)
      case (Inl e)
      then show ?thesis by (cases e) simp
    next
      case (Inr j)
      with Cons show ?thesis by simp
    qed
  qed
  from count [of ress] len [of m cs] run
  have "(\<forall>res \<in> set ress. res \<noteq> Inl ErrNoMoreIDs) \<longrightarrow> length (issued ress) = length cs"
    by simp
  with one all range run show ?thesis by simp
qed

theorem Request_issues_fresh_nonzero_witness:
  "Request \<lparr>index = [1 \<mapsto> ()], lastIdUsed = 0\<rparr> ()
     = (Inr 2, \<lparr>index = [1 \<mapsto> (), 2 \<mapsto> ()], lastIdUsed = 2\<rparr>)
   \<and> 1 \<le> unat (2 :: 16 word) \<and> unat (2 :: 16 word) \<le> 65535
   \<and> [1 \<mapsto> ()] (2 :: 16 word) = None
   \<and> fst (Requests \<lparr>index = [1 \<mapsto> ()], lastIdUsed = 0\<rparr> [(), (), ()]) = [Inr 2, Inr 3, Inr 4]
   \<and> distinct (issued [Inr 2, Inr 3, Inr (4 :: 16 word)])
   \<and> length (issued [Inr 2, Inr 3, Inr (4 :: 16 word)]) = length [(), (), ()]"
proof -
  have r1: "Request \<lparr>index = [1 \<mapsto> ()], lastIdUsed = 0\<rparr> ()
     = (Inr 2, \<lparr>index = [1 \<mapsto> (), 2 \<mapsto> ()], lastIdUsed = 2\<rparr>)"
    by (simp add: Request_def getNextId_def Let_def getNextId_loop.simps [of _ 1]
        getNextId_loop.simps [of _ 2])
  have r2: "Request \<lparr>index = [1 \<mapsto> (), 2 \<mapsto> ()], lastIdUsed = 2\<rparr> ()
     = (Inr 3, \<lparr>index = [1 \<mapsto> (), 2 \<mapsto> (), 3 \<mapsto> ()], lastIdUsed = 3\<rparr>)"
    by (simp add: Request_def Let_def)
  have r3: "Request \<lparr>index = [1 \<mapsto> (), 2 \<mapsto> (), 3 \<mapsto> ()], lastIdUsed = 3\<rparr> ()
     = (Inr 4, \<lparr>index = [1 \<mapsto> (), 2 \<mapsto> (), 3 \<mapsto> (), 4 \<mapsto> ()], lastIdUsed = 4\<rparr>)"
    by (simp add: Request_def Let_def)
  have run: "fst (Requests \<lparr>index = [1 \<mapsto> ()], lastIdUsed = 0\<rparr> [(), (), ()])
     = [Inr 2, Inr 3, Inr 4]"
    by (simp add: r1 r2 r3)
  from Request_issues_fresh_nonzero
    [of "\<lparr>index = [1 \<mapsto> ()], lastIdUsed = 0\<rparr>" "()" 2
        "\<lparr>index = [1 \<mapsto> (), 2 \<mapsto> ()], lastIdUsed = 2\<rparr>" "[(), (), ()]"]
  show ?thesis using r1 run by simp
qed

lemma uint16_succ: "(i :: 16 word) < 65535 \<Longrightarrow> unat (i + 1) = unat i + 1"
  by (simp add: word_less_nat_alt unat_word_ariths)

lemma uint16_succ_le: "(i :: 16 word) < 65535 \<Longrightarrow> i + 1 \<le> j \<longleftrightarrow> i < j"
  by (auto simp: word_le_nat_alt word_less_nat_alt uint16_succ)

lemma getNextId_loop_zero_iff:
  "s \<noteq> 0 \<Longrightarrow>
     getNextId_loop idx s = 0 \<longleftrightarrow> (\<forall>j. s \<le> j \<and> j < 65535 \<longrightarrow> idx j \<noteq> None)"
proof (induction idx s rule: getNextId_loop.induct)
  case (1 idx i)
  show ?case
  proof (cases "i < 65535")
    case False
    then have "getNextId_loop idx i = 0" by (simp add: getNextId_loop.simps [of idx i])
    moreover from False have "\<not> (i \<le> j \<and> j < 65535)" for j by auto
    ultimately show ?thesis by blast
  next
    case True
    note lt = this
    show ?thesis
    proof (cases "idx i = None")
      case True
      with lt have "getNextId_loop idx i = i" by (simp add: getNextId_loop.simps [of idx i])
      with "1.prems" True lt show ?thesis by auto
    next
      case False
      with lt have eq: "getNextId_loop idx i = getNextId_loop idx (i + 1)"
        by (auto simp: getNextId_loop.simps [of idx i])
      from lt have "unat (i + 1) \<noteq> 0" by (simp add: uint16_succ)
      then have "i + 1 \<noteq> 0" by (metis unat_0)
      with "1.IH" lt False
      have IH: "getNextId_loop idx (i + 1) = 0
          \<longleftrightarrow> (\<forall>j. i + 1 \<le> j \<and> j < 65535 \<longrightarrow> idx j \<noteq> None)"
        by simp
      have "(\<forall>j. i \<le> j \<and> j < 65535 \<longrightarrow> idx j \<noteq> None)
          \<longleftrightarrow> (\<forall>j. i + 1 \<le> j \<and> j < 65535 \<longrightarrow> idx j \<noteq> None)"
      proof -
        have split: "i \<le> j \<longleftrightarrow> i = j \<or> i + 1 \<le> j" for j
          unfolding uint16_succ_le [OF lt] by (rule word_le_less_eq)
        from False show ?thesis by (auto simp: split)
      qed
      with eq IH show ?thesis by simp
    qed
  qed
qed

lemma Request_failure_iff:
  "fst (Request m c) = Inl ErrNoMoreIDs \<longleftrightarrow>
     (\<forall>j. (if lastIdUsed m < 65535 then lastIdUsed m + 1 else 1) \<le> j \<and> j < 65535
          \<longrightarrow> index m j \<noteq> None)
     \<and> index m (if lastIdUsed m < 65535 then lastIdUsed m + 1 else 1) \<noteq> None"
proof -
  define l where "l = (if lastIdUsed m < 65535 then lastIdUsed m + 1 else 1)"
  have l0: "l \<noteq> 0"
  proof (cases "lastIdUsed m < 65535")
    case True
    then have "unat (lastIdUsed m + 1) \<noteq> 0" by (simp add: uint16_succ)
    then have "lastIdUsed m + 1 \<noteq> 0" by (metis unat_0)
    with True show ?thesis by (simp add: l_def)
  next
    case False
    then show ?thesis by (simp add: l_def)
  qed
  have "fst (Request m c) = Inl ErrNoMoreIDs
      \<longleftrightarrow> index m l \<noteq> None \<and> getNextId_loop (index m) l = 0"
    by (auto simp: Request_def getNextId_def Let_def l_def uint16_le_max word_gt_0
        split: if_splits)
  with getNextId_loop_zero_iff [OF l0, of "index m"] show ?thesis
    unfolding l_def by blast
qed

text \<open>
  C1. \<^verbatim>\<open>Request\<close> fails exactly when the identifier after \<^verbatim>\<open>lastIdUsed\<close> and every
  identifier from there up to 65534 are in use (lemma \<open>Request_failure_iff\<close>): the loop of
  \<^verbatim>\<open>getNextId\<close> stops before 65535 and does not wrap to 1. The state below has one
  identifier in use (65535) and 65534 identifiers free, and \<^verbatim>\<open>lastIdUsed\<close> is 65534.
  \<^verbatim>\<open>Request\<close> moves \<^verbatim>\<open>lastIdUsed\<close> to 65535, finds it in use, and \<^verbatim>\<open>getNextId(65535)\<close>
  runs its loop \<^verbatim>\<open>for i := 65535; i < 65535; i++\<close> zero times: the call fails with
  \<^verbatim>\<open>ErrNoMoreIDs\<close> although identifier 1 is free. The index is left as it was.
\<close>

theorem Request_fails_with_free_identifiers:
  "Request \<lparr>index = [65535 \<mapsto> c0], lastIdUsed = 65534\<rparr> c
     = (Inl ErrNoMoreIDs, \<lparr>index = [65535 \<mapsto> c0], lastIdUsed = 65535\<rparr>)
   \<and> index \<lparr>index = [65535 \<mapsto> c0], lastIdUsed = 65534\<rparr> 1 = None"
  by (simp add: Request_def getNextId_def Let_def getNextId_loop.simps [of _ 65535])

section \<open>Theorems about topic matching\<close>

lemma strings_Split_nonempty: "strings_Split s sep \<noteq> []"
  by (induction s) (auto split: list.splits)

lemma strings_Join_Split: "strings_Join (strings_Split s sep) sep = s"
proof (induction s)
  case Nil
  show ?case by simp
next
  case (Cons c s)
  obtain piece pieces where sp: "strings_Split s sep = piece # pieces"
    using strings_Split_nonempty [of s sep] by (cases "strings_Split s sep") auto
  with Cons show ?case by (cases pieces) auto
qed

lemma strings_Split_pieces: "piece \<in> set (strings_Split s sep) \<Longrightarrow> sep \<notin> set piece"
proof (induction s arbitrary: piece)
  case Nil
  then show ?case by simp
next
  case (Cons c s)
  obtain p ps where sp: "strings_Split s sep = p # ps"
    using strings_Split_nonempty [of s sep] by (cases "strings_Split s sep") auto
  with Cons show ?case by (auto split: if_splits)
qed

lemma strings_Split_example:
  "strings_Split ''a/b//c/'' CHR ''/'' = [''a'', ''b'', [], ''c'', []]"
  by simp

lemma matchDeep_imp_spec: "matchDeep route topic \<Longrightarrow> spec_levels_match route topic"
  by (induction route topic rule: matchDeep.induct)
     (auto intro: spec_levels_match.intros split: if_splits)

lemma spec_imp_matchDeep: "spec_levels_match route topic \<Longrightarrow> matchDeep route topic"
proof (induction rule: spec_levels_match.induct)
  case both_exhausted
  show ?case by simp
next
  case (multi_level rs topic)
  show ?case by (cases topic) simp_all
next
  case (single_level rs ts t)
  then show ?case by simp
next
  case (literal rs ts t)
  then show ?case by simp
qed

lemma matchDeep_same: "matchDeep levels levels"
  by (induction levels) simp_all

lemma match_plain:
  assumes "\<not> strings_HasPrefix f ''$share''"
  shows "match f t = Inr (matchDeep (topicSplit f) (topicSplit t))"
  using assms
  by (auto simp: match_def routeIncludesTopic_def routeSplit_def topicSplit_def matchDeep_same)

lemma routeSplit_shared_example: "routeSplit ''$share/group/a/b'' = Inr [''a'', ''b'']"
  by (simp add: routeSplit_def strings_HasPrefix_def)

lemma routeSplit_plain_example: "routeSplit ''a/b'' = Inr [''a'', ''b'']"
  by (simp add: routeSplit_def strings_HasPrefix_def)

lemma match_returns: "routeSplit f = Inr levels \<Longrightarrow> \<exists>b. match f t = Inr b"
  by (auto simp: match_def routeIncludesTopic_def)

lemma match_fault: "match f t = Inl e \<Longrightarrow> e = SliceBoundsOutOfRange \<and> routeSplit f = Inl e"
  by (auto simp: match_def routeIncludesTopic_def routeSplit_def Let_def
      split: if_splits sum.splits)

lemma match_empty_topic:
  "match f [] = Inr False \<longleftrightarrow> f \<noteq> [] \<and> (\<exists>l ls. routeSplit f = Inr (l # ls) \<and> l \<noteq> ''#'')"
proof (cases "f = []")
  case True
  then show ?thesis by (simp add: match_def)
next
  case False
  show ?thesis
  proof (cases "routeSplit f")
    case (Inl e)
    with False show ?thesis by (simp add: match_def routeIncludesTopic_def)
  next
    case (Inr levels)
    with False show ?thesis
      by (cases levels) (auto simp: match_def routeIncludesTopic_def topicSplit_def)
  qed
qed

text \<open>
  C5. The matcher compares level sequences obtained by splitting on \<open>/\<close>: the empty filter
  and the empty topic give the empty sequence, a non-empty topic gives its split;
  \<^verbatim>\<open>matchDeep\<close> is the level-by-level relation of the specification; both sequences
  exhausted is a match; filter exhausted with topic remaining is no match; topic exhausted
  with filter remaining matches only if the filter level is \<open>#\<close>; a filter level \<open>#\<close>
  matches whatever remains; otherwise a level matches exactly when it is \<open>+\<close> or equal to
  the topic's level and the remainders match. For a filter without the shared-subscription
  prefix the verdict of \<^verbatim>\<open>match\<close> is that of \<^verbatim>\<open>matchDeep\<close> on the two splits (the test
  for equal strings agrees with it). The two examples of the specification hold.
\<close>

theorem matcher_level_by_level:
  "routeSplit [] = Inr [] \<and> topicSplit [] = []
   \<and> (topic_name \<noteq> [] \<longrightarrow> topicSplit topic_name = strings_Split topic_name CHR ''/'')
   \<and> matchDeep route topic = spec_levels_match route topic
   \<and> matchDeep [] []
   \<and> \<not> matchDeep [] (t # ts)
   \<and> matchDeep (r # rs) [] = (r = ''#'')
   \<and> matchDeep (''#'' # rs) topic
   \<and> matchDeep (r # rs) (t # ts) = (r = ''#'' \<or> ((r = ''+'' \<or> r = t) \<and> matchDeep rs ts))
   \<and> (\<not> strings_HasPrefix f ''$share'' \<longrightarrow>
         match f topic_name = Inr (matchDeep (topicSplit f) (topicSplit topic_name)))
   \<and> match ''sensors/+/status'' ''sensors/temp/status'' = Inr True
   \<and> match ''sensors/+/status'' ''sensors/temp/zone/status'' = Inr False"
proof -
  have splits: "routeSplit [] = Inr [] \<and> topicSplit [] = []
      \<and> (topic_name \<noteq> [] \<longrightarrow> topicSplit topic_name = strings_Split topic_name CHR ''/'')"
    by (simp add: routeSplit_def topicSplit_def)
  have spec: "matchDeep route topic = spec_levels_match route topic"
    using matchDeep_imp_spec spec_imp_matchDeep by blast
  have hash: "matchDeep (''#'' # rs) topic" by (cases topic) simp_all
  have step: "matchDeep (r # rs) (t # ts)
      = (r = ''#'' \<or> ((r = ''+'' \<or> r = t) \<and> matchDeep rs ts))"
    by simp
  have plain: "\<not> strings_HasPrefix f ''$share'' \<longrightarrow>
      match f topic_name = Inr (matchDeep (topicSplit f) (topicSplit topic_name))"
    using match_plain by blast
  have ex1: "match ''sensors/+/status'' ''sensors/temp/status'' = Inr True"
    by (simp add: match_def routeIncludesTopic_def routeSplit_def topicSplit_def
        strings_HasPrefix_def)
  have ex2: "match ''sensors/+/status'' ''sensors/temp/zone/status'' = Inr False"
    by (simp add: match_def routeIncludesTopic_def routeSplit_def topicSplit_def
        strings_HasPrefix_def)
  from splits spec hash step plain ex1 ex2 show ?thesis by simp
qed

theorem matcher_level_by_level_witness:
  "\<not> strings_HasPrefix ''a/+'' ''$share''
   \<and> match ''a/+'' ''a/b'' = Inr (matchDeep (topicSplit ''a/+'') (topicSplit ''a/b''))
   \<and> topicSplit ''a/b'' = [''a'', ''b'']
   \<and> spec_levels_match [''a'', ''+''] [''a'', ''b'']
   \<and> \<not> spec_levels_match [''a'', ''+''] [''a'', ''b'', ''c'']"
  using matcher_level_by_level
          [where f = "''a/+''" and topic_name = "''a/b''"
             and route = "[''a'', ''+'']" and topic = "[''a'', ''b'']"]
        matcher_level_by_level
          [where f = "''a/+''" and topic_name = "''a/b''"
             and route = "[''a'', ''+'']" and topic = "[''a'', ''b'', ''c'']"]
  by (simp add: strings_HasPrefix_def)

text \<open>
  C2, as stated, fails at the topic that is the shared filter itself: \<^verbatim>\<open>match\<close> tests the
  two strings for equality before it strips the prefix, so the shared filter matches that
  topic and the stripped filter does not.
\<close>

theorem shared_filter_counterexample:
  "match ''$share/group/a/b'' ''$share/group/a/b'' = Inr True
   \<and> match ''a/b'' ''$share/group/a/b'' = Inr False"
  by (simp add: match_def routeIncludesTopic_def routeSplit_plain_example topicSplit_def)

text \<open>
  C2, amended. For every topic \<open>t\<close> other than the string \<^verbatim>\<open>$share/group/a/b\<close> itself, the
  matcher gives the same verdict for the shared filter and for its stripped form.
\<close>

theorem shared_filter_stripped:
  "t \<noteq> ''$share/group/a/b'' \<Longrightarrow> match ''$share/group/a/b'' t = match ''a/b'' t"
proof -
  assume ne: "t \<noteq> ''$share/group/a/b''"
  have "match ''a/b'' t = Inr (matchDeep [''a'', ''b''] (topicSplit t))"
    using match_plain [of "''a/b''" t] by (simp add: strings_HasPrefix_def topicSplit_def)
  moreover from ne
  have "match ''$share/group/a/b'' t = Inr (matchDeep [''a'', ''b''] (topicSplit t))"
    by (auto simp add: match_def routeIncludesTopic_def routeSplit_shared_example)
  ultimately show ?thesis by simp
qed

theorem shared_filter_stripped_witness:
  "''a/b'' \<noteq> ''$share/group/a/b''
   \<and> match ''$share/group/a/b'' ''a/b'' = match ''a/b'' ''a/b''
   \<and> match ''a/b'' ''a/b'' = Inr True"
  using shared_filter_stripped [of "''a/b''"] by (simp add: match_def)

section \<open>Theorems about the routers\<close>

lemma registered_calls_append:
  "registered_calls (tr @ tr') = registered_calls tr @ registered_calls tr'"
  by (induction tr rule: registered_calls.induct) simp_all

lemma default_calls_append:
  "default_calls (tr @ tr') = default_calls tr @ default_calls tr'"
  by (induction tr rule: default_calls.induct) simp_all

lemma registered_calls_Registered:
  "registered_calls (map (\<lambda>(route, f). Registered route f) cs) = cs"
  by (induction cs) auto

lemma default_calls_Registered:
  "default_calls (map (\<lambda>(route, f). Registered route f) cs) = []"
  by (induction cs) auto

lemma StandardRouter_handlers_eq:
  "StandardRouter_handlers route hs m (hc, w, tr) =
     (hc \<or> hs \<noteq> [], fold (\<lambda>h. h m) hs w, tr @ map (Registered route) hs)"
  by (induction hs arbitrary: hc w tr) auto

lemma Router_handlers_eq:
  "Router_handlers wrap ctx route hs m (hc, w, tr) =
     (hc \<or> hs \<noteq> [], fold (\<lambda>h. wrap h ctx m) hs w,
      tr @ map (\<lambda>h. Registered route (wrap h)) hs)"
  by (induction hs arbitrary: hc w tr) auto

lemma StandardRouter_range_eq:
  assumes "StandardRouter_range subs topic m (hc, w, tr) = Inr (hc', w', tr')"
  shows "hc' = (hc \<or> matching_calls subs topic \<noteq> [])
     \<and> w' = fold (\<lambda>(route, h). h m) (matching_calls subs topic) w
     \<and> tr' = tr @ map (\<lambda>(route, h). Registered route h) (matching_calls subs topic)"
  using assms
proof (induction subs arbitrary: hc w tr)
  case Nil
  then show ?case by simp
next
  case (Cons entry subs)
  obtain route hs where entry: "entry = (route, hs)" by (cases entry)
  from Cons.prems entry obtain b where b: "match route topic = Inr b"
    by (cases "match route topic") auto
  show ?case
  proof (cases b)
    case True
    with Cons.prems entry b
    have "StandardRouter_range subs topic m
            (hc \<or> hs \<noteq> [], fold (\<lambda>h. h m) hs w, tr @ map (Registered route) hs)
          = Inr (hc', w', tr')"
      by (simp add: StandardRouter_handlers_eq)
    from Cons.IH [OF this] entry b True show ?thesis
      by (auto simp: fold_map comp_def)
  next
    case False
    with Cons.prems entry b
    have "StandardRouter_range subs topic m (hc, w, tr) = Inr (hc', w', tr')" by simp
    from Cons.IH [OF this] entry b False show ?thesis by simp
  qed
qed

lemma Router_range_eq:
  assumes "Router_range wrap ctx subs topic m (hc, w, tr) = Inr (hc', w', tr')"
  shows "hc' = (hc \<or> matching_calls subs topic \<noteq> [])
     \<and> w' = fold (\<lambda>(route, h). wrap h ctx m) (matching_calls subs topic) w
     \<and> tr' = tr @ map (\<lambda>(route, h). Registered route (wrap h)) (matching_calls subs topic)"
  using assms
proof (induction subs arbitrary: hc w tr)
  case Nil
  then show ?case by simp
next
  case (Cons entry subs)
  obtain route hs where entry: "entry = (route, hs)" by (cases entry)
  from Cons.prems entry obtain b where b: "match route topic = Inr b"
    by (cases "match route topic") auto
  show ?case
  proof (cases b)
    case True
    with Cons.prems entry b
    have "Router_range wrap ctx subs topic m
            (hc \<or> hs \<noteq> [], fold (\<lambda>h. wrap h ctx m) hs w,
             tr @ map (\<lambda>h. Registered route (wrap h)) hs)
          = Inr (hc', w', tr')"
      by (simp add: Router_handlers_eq)
    from Cons.IH [OF this] entry b True show ?thesis
      by (auto simp: fold_map comp_def)
  next
    case False
    with Cons.prems entry b
    have "Router_range wrap ctx subs topic m (hc, w, tr) = Inr (hc', w', tr')" by simp
    from Cons.IH [OF this] entry b False show ?thesis by simp
  qed
qed

lemma StandardRouter_range_returns:
  assumes "\<forall>(f, hs) \<in> set subs. \<exists>b. match f topic = Inr b"
  shows "\<exists>st'. StandardRouter_range subs topic m st = Inr st'"
  using assms
proof (induction subs arbitrary: st)
  case Nil
  show ?case by (cases st) auto
next
  case (Cons entry subs)
  obtain route hs where entry: "entry = (route, hs)" by (cases entry)
  with Cons.prems obtain b where b: "match route topic = Inr b" by auto
  from Cons.prems have "\<forall>(f, hs) \<in> set subs. \<exists>b. match f topic = Inr b" by simp
  from Cons.IH [OF this] entry b show ?case by simp
qed

lemma StandardRouter_range_fault:
  "StandardRouter_range subs topic m st = Inl e \<Longrightarrow> e = SliceBoundsOutOfRange"
proof (induction subs arbitrary: st)
  case Nil
  then show ?case by simp
next
  case (Cons entry subs)
  obtain route hs where entry: "entry = (route, hs)" by (cases entry)
  show ?case
  proof (cases "match route topic")
    case (Inl e')
    with Cons.prems entry have "e = e'" by simp
    with Inl match_fault show ?thesis by blast
  next
    case (Inr b)
    with Cons.prems entry Cons.IH show ?thesis by (simp split: if_splits)
  qed
qed

lemma Router_range_returns:
  assumes "\<forall>(f, hs) \<in> set subs. \<exists>b. match f topic = Inr b"
  shows "\<exists>st'. Router_range wrap ctx subs topic m st = Inr st'"
  using assms
proof (induction subs arbitrary: st)
  case Nil
  show ?case by (cases st) auto
next
  case (Cons entry subs)
  obtain route hs where entry: "entry = (route, hs)" by (cases entry)
  with Cons.prems obtain b where b: "match route topic = Inr b" by auto
  from Cons.prems have "\<forall>(f, hs) \<in> set subs. \<exists>b. match f topic = Inr b" by simp
  from Cons.IH [OF this] entry b show ?case by simp
qed

lemma Router_range_fault:
  "Router_range wrap ctx subs topic m st = Inl e \<Longrightarrow> e = SliceBoundsOutOfRange"
proof (induction subs arbitrary: st)
  case Nil
  then show ?case by simp
next
  case (Cons entry subs)
  obtain route hs where entry: "entry = (route, hs)" by (cases entry)
  show ?case
  proof (cases "match route topic")
    case (Inl e')
    with Cons.prems entry have "e = e'" by simp
    with Inl match_fault show ?thesis by blast
  next
    case (Inr b)
    with Cons.prems entry Cons.IH show ?thesis by (simp split: if_splits)
  qed
qed

lemma Route_topic_nil:
  "Properties pb = None \<Longrightarrow> Route_topic als pb m = Inl NilDereference"
  by (simp add: Route_topic_def)

lemma Route_topic_returns:
  "Properties pb \<noteq> None \<Longrightarrow> \<exists>als' topic. Route_topic als pb m = Inr (als', topic)"
  by (auto simp: Route_topic_def Let_def split: option.splits)

lemma Router_wrapHandler_aliases [simp]:
  "Router_wrapHandler (r\<lparr>aliases := als\<rparr>) = Router_wrapHandler r"
  by (rule ext) (simp add: Router_wrapHandler_def)

lemma StandardContextRouter_wrapHandler_aliases [simp]:
  "StandardContextRouter_wrapHandler (r\<lparr>aliases := als\<rparr>) = StandardContextRouter_wrapHandler r"
  by (rule ext) (simp add: StandardContextRouter_wrapHandler_def)

lemma StandardRouter_Route_result:
  assumes "StandardRouter_Route r pb w = Inr (r', w', tr)"
  shows "\<exists>als topic.
      Route_topic (aliases r) pb (PublishFromPacketPublish pb) = Inr (als, topic)
    \<and> r' = r\<lparr>aliases := als\<rparr>
    \<and> tr = map (\<lambda>(route, h). Registered route h) (matching_calls (subscriptions r) topic)
           @ (if matching_calls (subscriptions r) topic = [] \<and> defaultHandler r \<noteq> None
              then [Default (the (defaultHandler r))] else [])"
proof -
  let ?m = "PublishFromPacketPublish pb"
  from assms obtain als topic where rt: "Route_topic (aliases r) pb ?m = Inr (als, topic)"
    by (cases "Route_topic (aliases r) pb ?m") (auto simp: StandardRouter_Route_def Let_def)
  from assms rt obtain hc w1 tr1 where
    rg: "StandardRouter_range (subscriptions r) topic ?m (False, w, []) = Inr (hc, w1, tr1)"
    by (cases "StandardRouter_range (subscriptions r) topic ?m (False, w, [])")
       (auto simp: StandardRouter_Route_def Let_def)
  from StandardRouter_range_eq [OF rg]
  have hc: "hc = (matching_calls (subscriptions r) topic \<noteq> [])"
    and tr1: "tr1 = map (\<lambda>(route, h). Registered route h) (matching_calls (subscriptions r) topic)"
    by simp_all
  from assms rt rg have "r' = r\<lparr>aliases := als\<rparr>"
    and "tr = tr1 @ (if \<not> hc \<and> defaultHandler r \<noteq> None
                     then [Default (the (defaultHandler r))] else [])"
    by (auto simp: StandardRouter_Route_def Let_def split: if_splits)
  with rt hc tr1 show ?thesis by simp
qed

lemma Router_Route_result:
  assumes "Router_Route r pb w = Inr (r', w', tr)"
  shows "\<exists>als topic.
      Route_topic (aliases r) pb (PublishFromPacketPublish pb) = Inr (als, topic)
    \<and> r' = r\<lparr>aliases := als\<rparr>
    \<and> tr = map (\<lambda>(route, h). Registered route (Router_wrapHandler r h))
               (matching_calls (subscriptions r) topic)
           @ (if matching_calls (subscriptions r) topic = [] \<and> defaultHandler r \<noteq> None
              then [Default (Router_wrapHandler r (the (defaultHandler r)))] else [])"
proof -
  let ?m = "PublishFromPacketPublish pb"
  from assms obtain als topic where rt: "Route_topic (aliases r) pb ?m = Inr (als, topic)"
    by (cases "Route_topic (aliases r) pb ?m") (auto simp: Router_Route_def Let_def)
  from assms rt obtain hc w1 tr1 where
    rg: "Router_range (Router_wrapHandler r) Background (subscriptions r) topic ?m (False, w, [])
           = Inr (hc, w1, tr1)"
    by (cases "Router_range (Router_wrapHandler r) Background (subscriptions r) topic ?m
                 (False, w, [])")
       (auto simp: Router_Route_def Let_def)
  from Router_range_eq [OF rg]
  have hc: "hc = (matching_calls (subscriptions r) topic \<noteq> [])"
    and tr1: "tr1 = map (\<lambda>(route, h). Registered route (Router_wrapHandler r h))
                      (matching_calls (subscriptions r) topic)"
    by simp_all
  from assms rt rg have "r' = r\<lparr>aliases := als\<rparr>"
    and "tr = tr1 @ (if \<not> hc \<and> defaultHandler r \<noteq> None
                     then [Default (Router_wrapHandler r (the (defaultHandler r)))] else [])"
    by (auto simp: Router_Route_def Let_def split: if_splits)
  with rt hc tr1 show ?thesis by simp
qed

lemma StandardContextRouter_Route_result:
  assumes "StandardContextRouter_Route r pb w = Inr (r', w', tr)"
  shows "\<exists>als topic.
      Route_topic (aliases r) pb (PublishFromPacketPublish pb) = Inr (als, topic)
    \<and> r' = r\<lparr>aliases := als\<rparr>
    \<and> tr = map (\<lambda>(route, h). Registered route (StandardContextRouter_wrapHandler r h))
               (matching_calls (subscriptions r) topic)
           @ (if matching_calls (subscriptions r) topic = [] \<and> defaultHandler r \<noteq> None
              then [Default (StandardContextRouter_wrapHandler r (the (defaultHandler r)))]
              else [])"
proof -
  let ?m = "PublishFromPacketPublish pb"
  let ?wrap = "StandardContextRouter_wrapHandler r"
  from assms obtain als topic where rt: "Route_topic (aliases r) pb ?m = Inr (als, topic)"
    by (cases "Route_topic (aliases r) pb ?m") (auto simp: StandardContextRouter_Route_def Let_def)
  from assms rt obtain hc w1 tr1 where
    rg: "Router_range ?wrap (WithCancel Background) (subscriptions r) topic ?m (False, w, [])
           = Inr (hc, w1, tr1)"
    by (cases "Router_range ?wrap (WithCancel Background) (subscriptions r) topic ?m
                 (False, w, [])")
       (auto simp: StandardContextRouter_Route_def Let_def)
  from Router_range_eq [OF rg]
  have hc: "hc = (matching_calls (subscriptions r) topic \<noteq> [])"
    and tr1: "tr1 = map (\<lambda>(route, h). Registered route (?wrap h))
                      (matching_calls (subscriptions r) topic)"
    by simp_all
  from assms rt rg have "r' = r\<lparr>aliases := als\<rparr>"
    and "tr = tr1 @ (if \<not> hc \<and> defaultHandler r \<noteq> None
                     then [Default (?wrap (the (defaultHandler r)))] else [])"
    by (auto simp: StandardContextRouter_Route_def Let_def split: if_splits)
  with rt hc tr1 show ?thesis by simp
qed

lemma matches_ok:
  assumes "\<forall>(f, hs) \<in> set subs. \<exists>levels. routeSplit f = Inr levels"
  shows "\<forall>(f, hs) \<in> set subs. \<exists>b. match f topic = Inr b"
  using assms match_returns by fastforce

lemma StandardRouter_Route_returns:
  assumes "Properties pb \<noteq> None"
    and "\<forall>(f, hs) \<in> set (subscriptions r). \<exists>levels. routeSplit f = Inr levels"
  shows "\<exists>r' w' tr. StandardRouter_Route r pb w = Inr (r', w', tr)"
proof -
  let ?m = "PublishFromPacketPublish pb"
  from assms(1) obtain als topic where rt: "Route_topic (aliases r) pb ?m = Inr (als, topic)"
    using Route_topic_returns by blast
  from StandardRouter_range_returns [OF matches_ok [OF assms(2)]]
  obtain hc w1 tr1 where
    "StandardRouter_range (subscriptions r) topic ?m (False, w, []) = Inr (hc, w1, tr1)"
    by (metis prod_cases3)
  with rt show ?thesis by (simp add: StandardRouter_Route_def Let_def)
qed

lemma Router_Route_returns:
  assumes "Properties pb \<noteq> None"
    and "\<forall>(f, hs) \<in> set (subscriptions r). \<exists>levels. routeSplit f = Inr levels"
  shows "\<exists>r' w' tr. Router_Route r pb w = Inr (r', w', tr)"
proof -
  let ?m = "PublishFromPacketPublish pb"
  from assms(1) obtain als topic where rt: "Route_topic (aliases r) pb ?m = Inr (als, topic)"
    using Route_topic_returns by blast
  from Router_range_returns [OF matches_ok [OF assms(2)]]
  obtain hc w1 tr1 where
    "Router_range (Router_wrapHandler r) Background (subscriptions r) topic ?m (False, w, [])
       = Inr (hc, w1, tr1)"
    by (metis prod_cases3)
  with rt show ?thesis by (simp add: Router_Route_def Let_def)
qed

lemma StandardContextRouter_Route_returns:
  assumes "Properties pb \<noteq> None"
    and "\<forall>(f, hs) \<in> set (subscriptions r). \<exists>levels. routeSplit f = Inr levels"
  shows "\<exists>r' w' tr. StandardContextRouter_Route r pb w = Inr (r', w', tr)"
proof -
  let ?m = "PublishFromPacketPublish pb"
  from assms(1) obtain als topic where rt: "Route_topic (aliases r) pb ?m = Inr (als, topic)"
    using Route_topic_returns by blast
  from Router_range_returns [OF matches_ok [OF assms(2)]]
  obtain hc w1 tr1 where
    "Router_range (StandardContextRouter_wrapHandler r) (WithCancel Background)
       (subscriptions r) topic ?m (False, w, []) = Inr (hc, w1, tr1)"
    by (metis prod_cases3)
  with rt show ?thesis by (simp add: StandardContextRouter_Route_def Let_def)
qed

lemma StandardRouter_Route_fault:
  "StandardRouter_Route r pb w = Inl e \<Longrightarrow>
     (Properties pb = None \<and> e = NilDereference)
     \<or> (Properties pb \<noteq> None \<and> e = SliceBoundsOutOfRange)"
proof -
  assume a: "StandardRouter_Route r pb w = Inl e"
  let ?m = "PublishFromPacketPublish pb"
  show ?thesis
  proof (cases "Properties pb")
    case None
    with a show ?thesis by (simp add: StandardRouter_Route_def Route_topic_nil)
  next
    case (Some props)
    then obtain als topic where rt: "Route_topic (aliases r) pb ?m = Inr (als, topic)"
      using Route_topic_returns [of pb "aliases r" ?m] by auto
    with a have "StandardRouter_range (subscriptions r) topic ?m (False, w, []) = Inl e"
      by (auto simp: StandardRouter_Route_def Let_def split: sum.splits if_splits)
    then have "e = SliceBoundsOutOfRange" by (rule StandardRouter_range_fault)
    with Some show ?thesis by simp
  qed
qed

lemma Router_Route_fault:
  "Router_Route r pb w = Inl e \<Longrightarrow>
     (Properties pb = None \<and> e = NilDereference)
     \<or> (Properties pb \<noteq> None \<and> e = SliceBoundsOutOfRange)"
proof -
  assume a: "Router_Route r pb w = Inl e"
  let ?m = "PublishFromPacketPublish pb"
  show ?thesis
  proof (cases "Properties pb")
    case None
    with a show ?thesis by (simp add: Router_Route_def Route_topic_nil)
  next
    case (Some props)
    then obtain als topic where rt: "Route_topic (aliases r) pb ?m = Inr (als, topic)"
      using Route_topic_returns [of pb "aliases r" ?m] by auto
    with a have "Router_range (Router_wrapHandler r) Background (subscriptions r) topic ?m
        (False, w, []) = Inl e"
      by (auto simp: Router_Route_def Let_def split: sum.splits if_splits)
    then have "e = SliceBoundsOutOfRange" by (rule Router_range_fault)
    with Some show ?thesis by simp
  qed
qed

lemma StandardContextRouter_Route_fault:
  "StandardContextRouter_Route r pb w = Inl e \<Longrightarrow>
     (Properties pb = None \<and> e = NilDereference)
     \<or> (Properties pb \<noteq> None \<and> e = SliceBoundsOutOfRange)"
proof -
  assume a: "StandardContextRouter_Route r pb w = Inl e"
  let ?m = "PublishFromPacketPublish pb"
  show ?thesis
  proof (cases "Properties pb")
    case None
    with a show ?thesis by (simp add: StandardContextRouter_Route_def Route_topic_nil)
  next
    case (Some props)
    then obtain als topic where rt: "Route_topic (aliases r) pb ?m = Inr (als, topic)"
      using Route_topic_returns [of pb "aliases r" ?m] by auto
    with a have "Router_range (StandardContextRouter_wrapHandler r) (WithCancel Background)
        (subscriptions r) topic ?m (False, w, []) = Inl e"
      by (auto simp: StandardContextRouter_Route_def Let_def split: sum.splits if_splits)
    then have "e = SliceBoundsOutOfRange" by (rule Router_range_fault)
    with Some show ?thesis by simp
  qed
qed

text \<open>
  C10. The three \<^verbatim>\<open>Route\<close> methods read \<^verbatim>\<open>pb.Properties.TopicAlias\<close> before any matching.
  For every publish whose \<^verbatim>\<open>Properties\<close> is nil, whatever its topic, each of them ends in a
  nil dereference and no handler is called; when \<^verbatim>\<open>Properties\<close> is not nil, none of them
  ends in a nil dereference.
\<close>

theorem Route_nil_Properties:
  "(Properties pb = None \<longrightarrow>
      StandardRouter_Route r pb w = Inl NilDereference
      \<and> Router_Route cr pb w = Inl NilDereference
      \<and> StandardContextRouter_Route cr pb w = Inl NilDereference)
   \<and> (Properties pb \<noteq> None \<longrightarrow>
      StandardRouter_Route r pb w \<noteq> Inl NilDereference
      \<and> Router_Route cr pb w \<noteq> Inl NilDereference
      \<and> StandardContextRouter_Route cr pb w \<noteq> Inl NilDereference)"
proof -
  have nil: "Properties pb = None \<longrightarrow>
      StandardRouter_Route r pb w = Inl NilDereference
      \<and> Router_Route cr pb w = Inl NilDereference
      \<and> StandardContextRouter_Route cr pb w = Inl NilDereference"
    by (simp add: StandardRouter_Route_def Router_Route_def StandardContextRouter_Route_def
        Route_topic_nil)
  have "Properties pb \<noteq> None \<longrightarrow> StandardRouter_Route r pb w \<noteq> Inl NilDereference"
    using StandardRouter_Route_fault [of r pb w NilDereference] by auto
  moreover have "Properties pb \<noteq> None \<longrightarrow> Router_Route cr pb w \<noteq> Inl NilDereference"
    using Router_Route_fault [of cr pb w NilDereference] by auto
  moreover have "Properties pb \<noteq> None \<longrightarrow>
      StandardContextRouter_Route cr pb w \<noteq> Inl NilDereference"
    using StandardContextRouter_Route_fault [of cr pb w NilDereference] by auto
  ultimately show ?thesis using nil by blast
qed

theorem Route_nil_Properties_witness:
  "Properties \<lparr>Topic = ''a/b'', Payload = [], Properties = None\<rparr> = None
   \<and> StandardRouter_Route (RegisterHandler NewStandardRouter ''a/b'' (log_handler ''h''))
        \<lparr>Topic = ''a/b'', Payload = [], Properties = None\<rparr> [] = Inl NilDereference
   \<and> Router_Route (RegisterHandler NewRouter ''a/b'' (log_ctx_handler ''h''))
        \<lparr>Topic = ''a/b'', Payload = [], Properties = None\<rparr> [] = Inl NilDereference
   \<and> StandardContextRouter_Route (RegisterHandler NewRouter ''a/b'' (log_ctx_handler ''h''))
        \<lparr>Topic = ''a/b'', Payload = [], Properties = None\<rparr> [] = Inl NilDereference
   \<and> Properties (publish ''a/b'' None) \<noteq> None
   \<and> StandardRouter_Route (RegisterHandler NewStandardRouter ''a/b'' (log_handler ''h''))
        (publish ''a/b'' None) [] \<noteq> Inl NilDereference
   \<and> Router_Route (RegisterHandler NewRouter ''a/b'' (log_ctx_handler ''h''))
        (publish ''a/b'' None) [] \<noteq> Inl NilDereference
   \<and> StandardContextRouter_Route (RegisterHandler NewRouter ''a/b'' (log_ctx_handler ''h''))
        (publish ''a/b'' None) [] \<noteq> Inl NilDereference"
  using Route_nil_Properties
          [of "\<lparr>Topic = ''a/b'', Payload = [], Properties = None\<rparr>"
              "RegisterHandler NewStandardRouter ''a/b'' (log_handler ''h'')" "[]"
              "RegisterHandler NewRouter ''a/b'' (log_ctx_handler ''h'')"]
        Route_nil_Properties
          [of "publish ''a/b'' None"
              "RegisterHandler NewStandardRouter ''a/b'' (log_handler ''h'')" "[]"
              "RegisterHandler NewRouter ''a/b'' (log_ctx_handler ''h'')"]
  by (simp add: publish_def)

lemma matching_calls_registered:
  "(route, g) \<in> set (matching_calls subs topic) \<Longrightarrow>
     \<exists>hs. (route, hs) \<in> set subs \<and> g \<in> set hs"
  by (induction subs topic rule: matching_calls.induct) (auto split: if_splits)

lemma matching_calls_member:
  "(route, hs) \<in> set subs \<Longrightarrow> g \<in> set hs \<Longrightarrow> match route topic = Inr True \<Longrightarrow>
     (route, g) \<in> set (matching_calls subs topic)"
  by (induction subs topic rule: matching_calls.induct) auto

lemma matching_calls_none:
  "\<forall>(f, hs) \<in> set subs. match f topic = Inr False \<Longrightarrow> matching_calls subs topic = []"
  by (induction subs topic rule: matching_calls.induct) auto

lemma wrapHandler_loop_take:
  "n \<le> length ms \<Longrightarrow>
     wrapHandler_loop ms (int n - 1) h = foldr (\<lambda>m g. m g) (take n ms) h"
proof (induction n arbitrary: h)
  case 0
  show ?case by (simp add: wrapHandler_loop.simps [of ms "- 1"])
next
  case (Suc n)
  then have n: "n < length ms" by simp
  have "wrapHandler_loop ms (int (Suc n) - 1) h = wrapHandler_loop ms (int n - 1) ((ms ! n) h)"
    by (simp add: wrapHandler_loop.simps [of ms "int n"])
  also from Suc have "\<dots> = foldr (\<lambda>m g. m g) (take n ms) ((ms ! n) h)" by simp
  also from n have "\<dots> = foldr (\<lambda>m g. m g) (take (Suc n) ms) h"
    by (simp add: take_Suc_conv_app_nth)
  finally show ?case .
qed

lemma wrapHandler_loop_all:
  "wrapHandler_loop ms (int (length ms) - 1) h = foldr (\<lambda>m g. m g) ms h"
  using wrapHandler_loop_take [of "length ms" ms h] by simp

lemma Router_wrapHandler_foldr:
  "Router_wrapHandler r h = foldr (\<lambda>m g. m g) (middlewares r) h"
  by (simp add: Router_wrapHandler_def wrapHandler_loop_all)

lemma StandardContextRouter_wrapHandler_foldr:
  "StandardContextRouter_wrapHandler r h = foldr (\<lambda>m g. m g) (middlewares r) h"
  by (simp add: StandardContextRouter_wrapHandler_def wrapHandler_loop_all)

lemma match_same: "match f f = Inr True"
  by (simp add: match_def)

text \<open>
  C7. For middlewares registered in the order \<open>m1, ..., mn\<close> and any handler \<open>h\<close>,
  \<^verbatim>\<open>wrapHandler\<close> of both context routers returns \<open>m1 (m2 (... (mn h)))\<close>, the first
  registered outermost, and \<open>h\<close> itself when no middleware is registered. Every call that a
  dispatch makes is a call of a handler wrapped this way. One dispatch through the logging
  middlewares \<open>m1\<close> then \<open>m2\<close> to a logging handler leaves the log
  \<open>m1-before, m2-before, handler, m2-after, m1-after\<close>.
\<close>

theorem wrapHandler_composition:
  "Router_wrapHandler r h = foldr (\<lambda>m g. m g) (middlewares r) h
   \<and> StandardContextRouter_wrapHandler r h = foldr (\<lambda>m g. m g) (middlewares r) h
   \<and> Router_wrapHandler (Router_Use (Router_Use NewRouter [m1]) [m2]) h = m1 (m2 h)
   \<and> Router_wrapHandler (Router_Use NewRouter [m1, m2, m3]) h = m1 (m2 (m3 h))
   \<and> StandardContextRouter_wrapHandler
        (StandardContextRouter_Use (StandardContextRouter_Use NewRouter m1) m2) h = m1 (m2 h)
   \<and> (middlewares r = [] \<longrightarrow>
        Router_wrapHandler r h = h \<and> StandardContextRouter_wrapHandler r h = h)
   \<and> (Router_Route r pb w = Inr (r', w', tr) \<longrightarrow>
        (\<forall>c \<in> set tr. \<exists>route g.
           (c = Registered route (foldr (\<lambda>m g. m g) (middlewares r) g)
            \<and> (\<exists>hs. (route, hs) \<in> set (subscriptions r) \<and> g \<in> set hs))
           \<or> (c = Default (foldr (\<lambda>m g. m g) (middlewares r) g)
              \<and> defaultHandler r = Some g)))
   \<and> Router_Route
        (RegisterHandler
           (Router_Use (Router_Use NewRouter [log_middleware ''m1'']) [log_middleware ''m2''])
           ''test/topic'' (log_ctx_handler ''handler''))
        (publish ''test/topic'' None) []
      = Inr (RegisterHandler
               (Router_Use (Router_Use NewRouter [log_middleware ''m1''])
                  [log_middleware ''m2''])
               ''test/topic'' (log_ctx_handler ''handler''),
             [''m1-before'', ''m2-before'', ''handler'', ''m2-after'', ''m1-after''],
             [Registered ''test/topic''
                (log_middleware ''m1'' (log_middleware ''m2'' (log_ctx_handler ''handler'')))])"
proof -
  have uses: "Router_wrapHandler (Router_Use (Router_Use NewRouter [m1]) [m2]) h = m1 (m2 h)
     \<and> Router_wrapHandler (Router_Use NewRouter [m1, m2, m3]) h = m1 (m2 (m3 h))
     \<and> StandardContextRouter_wrapHandler
          (StandardContextRouter_Use (StandardContextRouter_Use NewRouter m1) m2) h = m1 (m2 h)"
    by (simp add: Router_wrapHandler_foldr StandardContextRouter_wrapHandler_foldr
        Router_Use_def StandardContextRouter_Use_def NewRouter_def)
  have none: "middlewares r = [] \<longrightarrow>
      Router_wrapHandler r h = h \<and> StandardContextRouter_wrapHandler r h = h"
    by (simp add: Router_wrapHandler_def StandardContextRouter_wrapHandler_def)
  have calls: "Router_Route r pb w = Inr (r', w', tr) \<longrightarrow>
        (\<forall>c \<in> set tr. \<exists>route g.
           (c = Registered route (foldr (\<lambda>m g. m g) (middlewares r) g)
            \<and> (\<exists>hs. (route, hs) \<in> set (subscriptions r) \<and> g \<in> set hs))
           \<or> (c = Default (foldr (\<lambda>m g. m g) (middlewares r) g)
              \<and> defaultHandler r = Some g))"
  proof
    assume "Router_Route r pb w = Inr (r', w', tr)"
    from Router_Route_result [OF this] obtain topic where
      tr: "tr = map (\<lambda>(route, h). Registered route (Router_wrapHandler r h))
               (matching_calls (subscriptions r) topic)
           @ (if matching_calls (subscriptions r) topic = [] \<and> defaultHandler r \<noteq> None
              then [Default (Router_wrapHandler r (the (defaultHandler r)))] else [])"
      by blast
    show "\<forall>c \<in> set tr. \<exists>route g.
           (c = Registered route (foldr (\<lambda>m g. m g) (middlewares r) g)
            \<and> (\<exists>hs. (route, hs) \<in> set (subscriptions r) \<and> g \<in> set hs))
           \<or> (c = Default (foldr (\<lambda>m g. m g) (middlewares r) g)
              \<and> defaultHandler r = Some g)"
    proof
      fix c assume "c \<in> set tr"
      with tr consider
        (reg) route g where "(route, g) \<in> set (matching_calls (subscriptions r) topic)"
          "c = Registered route (Router_wrapHandler r g)"
        | (dflt) g where "defaultHandler r = Some g" "c = Default (Router_wrapHandler r g)"
        by (auto split: if_splits)
      then show "\<exists>route g.
           (c = Registered route (foldr (\<lambda>m g. m g) (middlewares r) g)
            \<and> (\<exists>hs. (route, hs) \<in> set (subscriptions r) \<and> g \<in> set hs))
           \<or> (c = Default (foldr (\<lambda>m g. m g) (middlewares r) g)
              \<and> defaultHandler r = Some g)"
      proof cases
        case reg
        from reg(1) have "\<exists>hs. (route, hs) \<in> set (subscriptions r) \<and> g \<in> set hs"
          by (rule matching_calls_registered)
        with reg(2) show ?thesis by (auto simp: Router_wrapHandler_foldr)
      next
        case dflt
        then show ?thesis by (auto simp: Router_wrapHandler_foldr)
      qed
    qed
  qed
  have run: "Router_Route
        (RegisterHandler
           (Router_Use (Router_Use NewRouter [log_middleware ''m1'']) [log_middleware ''m2''])
           ''test/topic'' (log_ctx_handler ''handler''))
        (publish ''test/topic'' None) []
      = Inr (RegisterHandler
               (Router_Use (Router_Use NewRouter [log_middleware ''m1''])
                  [log_middleware ''m2''])
               ''test/topic'' (log_ctx_handler ''handler''),
             [''m1-before'', ''m2-before'', ''handler'', ''m2-after'', ''m1-after''],
             [Registered ''test/topic''
                (log_middleware ''m1'' (log_middleware ''m2'' (log_ctx_handler ''handler'')))])"
    by (simp add: Router_Route_def Route_topic_def publish_def PublishFromPacketPublish_def
        RegisterHandler_def Router_Use_def NewRouter_def match_same Router_wrapHandler_foldr
        log_middleware_def log_ctx_handler_def)
  from uses none calls run show ?thesis
    by (simp only: Router_wrapHandler_foldr StandardContextRouter_wrapHandler_foldr simp_thms)
qed

theorem wrapHandler_composition_witness:
  "middlewares (NewRouter :: string list Handler Router) = []
   \<and> Router_wrapHandler NewRouter (log_ctx_handler ''h'') = log_ctx_handler ''h''
   \<and> Router_Route
        (DefaultHandler (Router_Use NewRouter [log_middleware ''m''])
           (Some (log_ctx_handler ''d'')))
        (publish ''t'' None) []
      = Inr (DefaultHandler (Router_Use NewRouter [log_middleware ''m''])
               (Some (log_ctx_handler ''d'')),
             [''m-before'', ''d'', ''m-after''],
             [Default (log_middleware ''m'' (log_ctx_handler ''d''))])
   \<and> set [Default (log_middleware ''m'' (log_ctx_handler ''d''))]
       = {Default (foldr (\<lambda>m g. m g) [log_middleware ''m''] (log_ctx_handler ''d''))}"
proof -
  have run: "Router_Route
        (DefaultHandler (Router_Use NewRouter [log_middleware ''m''])
           (Some (log_ctx_handler ''d'')))
        (publish ''t'' None) []
      = Inr (DefaultHandler (Router_Use NewRouter [log_middleware ''m''])
               (Some (log_ctx_handler ''d'')),
             [''m-before'', ''d'', ''m-after''],
             [Default (log_middleware ''m'' (log_ctx_handler ''d''))])"
    by (simp add: Router_Route_def Route_topic_def publish_def PublishFromPacketPublish_def
        DefaultHandler_def Router_Use_def NewRouter_def Router_wrapHandler_foldr
        log_middleware_def log_ctx_handler_def)
  from wrapHandler_composition
         [where r = "NewRouter :: string list Handler Router" and h = "log_ctx_handler ''h''"]
       wrapHandler_composition
         [where r = "DefaultHandler (Router_Use NewRouter [log_middleware ''m''])
                       (Some (log_ctx_handler ''d''))"
            and pb = "publish ''t'' None" and w = "[]"
            and r' = "DefaultHandler (Router_Use NewRouter [log_middleware ''m''])
                        (Some (log_ctx_handler ''d''))"
            and w' = "[''m-before'', ''d'', ''m-after'']"
            and tr = "[Default (log_middleware ''m'' (log_ctx_handler ''d''))]"]
       run
  show ?thesis by (simp add: NewRouter_def)
qed

text \<open>
  C6. For every dispatch that returns, in each of the three routers: the registered calls
  made are exactly the handlers registered under the filters that match the effective
  topic; the default handler is called if and only if it is set and no registered handler
  was called (no filter matched, or the matching filters had no handlers), and then it is
  called once, after the scan; when a registered handler was called, the default handler is
  not. In the context routers the default handler that is called is the one wrapped by
  \<^verbatim>\<open>wrapHandler\<close>, that is by the whole middleware chain. A dispatch returns whenever
  \<^verbatim>\<open>Properties\<close> is not nil and \<^verbatim>\<open>routeSplit\<close> returns for every registered filter.
\<close>

theorem default_handler_iff_no_registered_call:
  "(StandardRouter_Route r pb w = Inr (r', w', tr) \<longrightarrow>
      (\<exists>als topic. Route_topic (aliases r) pb (PublishFromPacketPublish pb) = Inr (als, topic)
         \<and> registered_calls tr = matching_calls (subscriptions r) topic)
      \<and> default_calls tr =
          (if defaultHandler r \<noteq> None \<and> registered_calls tr = []
           then [the (defaultHandler r)] else [])
      \<and> ((\<exists>d. Default d \<in> set tr) \<longleftrightarrow>
           (defaultHandler r \<noteq> None \<and> (\<forall>route f. Registered route f \<notin> set tr))))
   \<and> (Router_Route cr pb w = Inr (cr', cw', ctr) \<longrightarrow>
      default_calls ctr =
          (if defaultHandler cr \<noteq> None \<and> registered_calls ctr = []
           then [foldr (\<lambda>m g. m g) (middlewares cr) (the (defaultHandler cr))] else [])
      \<and> ((\<exists>d. Default d \<in> set ctr) \<longleftrightarrow>
           (defaultHandler cr \<noteq> None \<and> (\<forall>route f. Registered route f \<notin> set ctr))))
   \<and> (StandardContextRouter_Route cr pb w = Inr (sr', sw', str) \<longrightarrow>
      default_calls str =
          (if defaultHandler cr \<noteq> None \<and> registered_calls str = []
           then [foldr (\<lambda>m g. m g) (middlewares cr) (the (defaultHandler cr))] else [])
      \<and> ((\<exists>d. Default d \<in> set str) \<longleftrightarrow>
           (defaultHandler cr \<noteq> None \<and> (\<forall>route f. Registered route f \<notin> set str))))
   \<and> (Properties pb \<noteq> None
        \<and> (\<forall>(f, hs) \<in> set (subscriptions r). \<exists>levels. routeSplit f = Inr levels)
        \<and> (\<forall>(f, hs) \<in> set (subscriptions cr). \<exists>levels. routeSplit f = Inr levels) \<longrightarrow>
      (\<exists>r1 w1 tr1. StandardRouter_Route r pb w = Inr (r1, w1, tr1))
      \<and> (\<exists>r1 w1 tr1. Router_Route cr pb w = Inr (r1, w1, tr1))
      \<and> (\<exists>r1 w1 tr1. StandardContextRouter_Route cr pb w = Inr (r1, w1, tr1)))"
proof -
  have shape: "default_calls t =
          (if dh \<noteq> None \<and> registered_calls t = [] then [wrap (the dh)] else [])
      \<and> ((\<exists>d. Default d \<in> set t) \<longleftrightarrow> (dh \<noteq> None \<and> (\<forall>route f. Registered route f \<notin> set t)))
      \<and> registered_calls t = map (\<lambda>(route, h). (route, wrap h)) cs"
    if "t = map (\<lambda>(route, h). Registered route (wrap h)) cs
            @ (if cs = [] \<and> dh \<noteq> None then [Default (wrap (the dh))] else [])"
    for t :: "'h call list" and cs :: "(string \<times> 'h) list" and dh wrap
  proof (cases cs)
    case Nil
    with that show ?thesis by auto
  next
    case (Cons c cs')
    obtain route h where "c = (route, h)" by (cases c)
    with Cons that have t: "t = Registered route (wrap h)
        # map (\<lambda>(route, h). Registered route (wrap h)) cs'"
      by simp
    have "default_calls (map (\<lambda>(route, h). Registered route (wrap h)) xs) = []"
      and "registered_calls (map (\<lambda>(route, h). Registered route (wrap h)) xs)
        = map (\<lambda>(route, h). (route, wrap h)) xs"
      and "Default d \<notin> set (map (\<lambda>(route, h). Registered route (wrap h)) xs)"
      for xs :: "(string \<times> 'h) list" and d
      by (induction xs) auto
    with t Cons \<open>c = (route, h)\<close> show ?thesis by auto
  qed
  have std: "StandardRouter_Route r pb w = Inr (r', w', tr) \<longrightarrow>
      (\<exists>als topic. Route_topic (aliases r) pb (PublishFromPacketPublish pb) = Inr (als, topic)
         \<and> registered_calls tr = matching_calls (subscriptions r) topic)
      \<and> default_calls tr =
          (if defaultHandler r \<noteq> None \<and> registered_calls tr = []
           then [the (defaultHandler r)] else [])
      \<and> ((\<exists>d. Default d \<in> set tr) \<longleftrightarrow>
           (defaultHandler r \<noteq> None \<and> (\<forall>route f. Registered route f \<notin> set tr)))"
  proof
    assume "StandardRouter_Route r pb w = Inr (r', w', tr)"
    from StandardRouter_Route_result [OF this] obtain als topic where
      rt: "Route_topic (aliases r) pb (PublishFromPacketPublish pb) = Inr (als, topic)" and
      tr: "tr = map (\<lambda>(route, h). Registered route ((\<lambda>h. h) h))
                 (matching_calls (subscriptions r) topic)
           @ (if matching_calls (subscriptions r) topic = [] \<and> defaultHandler r \<noteq> None
              then [Default ((\<lambda>h. h) (the (defaultHandler r)))] else [])"
      by auto
    from shape [OF tr] rt show "(\<exists>als topic.
         Route_topic (aliases r) pb (PublishFromPacketPublish pb) = Inr (als, topic)
         \<and> registered_calls tr = matching_calls (subscriptions r) topic)
      \<and> default_calls tr =
          (if defaultHandler r \<noteq> None \<and> registered_calls tr = []
           then [the (defaultHandler r)] else [])
      \<and> ((\<exists>d. Default d \<in> set tr) \<longleftrightarrow>
           (defaultHandler r \<noteq> None \<and> (\<forall>route f. Registered route f \<notin> set tr)))"
      by simp
  qed
  have ctx: "Router_Route cr pb w = Inr (cr', cw', ctr) \<longrightarrow>
      default_calls ctr =
          (if defaultHandler cr \<noteq> None \<and> registered_calls ctr = []
           then [foldr (\<lambda>m g. m g) (middlewares cr) (the (defaultHandler cr))] else [])
      \<and> ((\<exists>d. Default d \<in> set ctr) \<longleftrightarrow>
           (defaultHandler cr \<noteq> None \<and> (\<forall>route f. Registered route f \<notin> set ctr)))"
  proof
    assume "Router_Route cr pb w = Inr (cr', cw', ctr)"
    from Router_Route_result [OF this] obtain topic where
      tr: "ctr = map (\<lambda>(route, h). Registered route (Router_wrapHandler cr h))
                 (matching_calls (subscriptions cr) topic)
           @ (if matching_calls (subscriptions cr) topic = [] \<and> defaultHandler cr \<noteq> None
              then [Default (Router_wrapHandler cr (the (defaultHandler cr)))] else [])"
      by auto
    from shape [OF tr] show "default_calls ctr =
          (if defaultHandler cr \<noteq> None \<and> registered_calls ctr = []
           then [foldr (\<lambda>m g. m g) (middlewares cr) (the (defaultHandler cr))] else [])
      \<and> ((\<exists>d. Default d \<in> set ctr) \<longleftrightarrow>
           (defaultHandler cr \<noteq> None \<and> (\<forall>route f. Registered route f \<notin> set ctr)))"
      by (simp add: Router_wrapHandler_foldr)
  qed
  have sctx: "StandardContextRouter_Route cr pb w = Inr (sr', sw', str) \<longrightarrow>
      default_calls str =
          (if defaultHandler cr \<noteq> None \<and> registered_calls str = []
           then [foldr (\<lambda>m g. m g) (middlewares cr) (the (defaultHandler cr))] else [])
      \<and> ((\<exists>d. Default d \<in> set str) \<longleftrightarrow>
           (defaultHandler cr \<noteq> None \<and> (\<forall>route f. Registered route f \<notin> set str)))"
  proof
    assume "StandardContextRouter_Route cr pb w = Inr (sr', sw', str)"
    from StandardContextRouter_Route_result [OF this] obtain topic where
      tr: "str = map (\<lambda>(route, h). Registered route (StandardContextRouter_wrapHandler cr h))
                 (matching_calls (subscriptions cr) topic)
           @ (if matching_calls (subscriptions cr) topic = [] \<and> defaultHandler cr \<noteq> None
              then [Default (StandardContextRouter_wrapHandler cr (the (defaultHandler cr)))]
              else [])"
      by auto
    from shape [OF tr] show "default_calls str =
          (if defaultHandler cr \<noteq> None \<and> registered_calls str = []
           then [foldr (\<lambda>m g. m g) (middlewares cr) (the (defaultHandler cr))] else [])
      \<and> ((\<exists>d. Default d \<in> set str) \<longleftrightarrow>
           (defaultHandler cr \<noteq> None \<and> (\<forall>route f. Registered route f \<notin> set str)))"
      by (simp add: StandardContextRouter_wrapHandler_foldr)
  qed
  have total: "Properties pb \<noteq> None
        \<and> (\<forall>(f, hs) \<in> set (subscriptions r). \<exists>levels. routeSplit f = Inr levels)
        \<and> (\<forall>(f, hs) \<in> set (subscriptions cr). \<exists>levels. routeSplit f = Inr levels) \<longrightarrow>
      (\<exists>r1 w1 tr1. StandardRouter_Route r pb w = Inr (r1, w1, tr1))
      \<and> (\<exists>r1 w1 tr1. Router_Route cr pb w = Inr (r1, w1, tr1))
      \<and> (\<exists>r1 w1 tr1. StandardContextRouter_Route cr pb w = Inr (r1, w1, tr1))"
    using StandardRouter_Route_returns [of pb r w] Router_Route_returns [of pb cr w]
      StandardContextRouter_Route_returns [of pb cr w]
    by blast
  from std ctx sctx total show ?thesis by blast
qed

theorem default_handler_iff_no_registered_call_witness:
  "StandardRouter_Route
     (DefaultHandler (RegisterHandler NewStandardRouter ''a/b'' (log_handler ''h''))
        (Some (log_handler ''default'')))
     (publish ''c/d'' None) []
   = Inr (DefaultHandler (RegisterHandler NewStandardRouter ''a/b'' (log_handler ''h''))
            (Some (log_handler ''default'')),
          [''default''], [Default (log_handler ''default'')])
   \<and> StandardRouter_Route
     (DefaultHandler (RegisterHandler NewStandardRouter ''a/b'' (log_handler ''h''))
        (Some (log_handler ''default'')))
     (publish ''a/b'' None) []
   = Inr (DefaultHandler (RegisterHandler NewStandardRouter ''a/b'' (log_handler ''h''))
            (Some (log_handler ''default'')),
          [''h''], [Registered ''a/b'' (log_handler ''h'')])
   \<and> Router_Route
     (DefaultHandler
        (RegisterHandler (Router_Use NewRouter [log_middleware ''m'']) ''a/b''
           (log_ctx_handler ''h''))
        (Some (log_ctx_handler ''default'')))
     (publish ''c/d'' None) []
   = Inr (DefaultHandler
            (RegisterHandler (Router_Use NewRouter [log_middleware ''m'']) ''a/b''
               (log_ctx_handler ''h''))
            (Some (log_ctx_handler ''default'')),
          [''m-before'', ''default'', ''m-after''],
          [Default (log_middleware ''m'' (log_ctx_handler ''default''))])
   \<and> StandardContextRouter_Route
     (DefaultHandler
        (RegisterHandler (Router_Use NewRouter [log_middleware ''m'']) ''a/b''
           (log_ctx_handler ''h''))
        (Some (log_ctx_handler ''default'')))
     (publish ''c/d'' None) []
   = Inr (DefaultHandler
            (RegisterHandler (Router_Use NewRouter [log_middleware ''m'']) ''a/b''
               (log_ctx_handler ''h''))
            (Some (log_ctx_handler ''default'')),
          [''m-before'', ''default'', ''m-after''],
          [Default (log_middleware ''m'' (log_ctx_handler ''default''))])
   \<and> default_calls [Default (log_handler ''default'')] = [log_handler ''default'']
   \<and> registered_calls [Default (log_handler ''default'')] = []
   \<and> default_calls [Registered ''a/b'' (log_handler ''h'')] = []
   \<and> Properties (publish ''c/d'' None) \<noteq> None
   \<and> routeSplit ''a/b'' = Inr [''a'', ''b'']"
proof -
  let ?sr = "DefaultHandler (RegisterHandler NewStandardRouter ''a/b'' (log_handler ''h''))
        (Some (log_handler ''default''))"
  let ?cr = "DefaultHandler
        (RegisterHandler (Router_Use NewRouter [log_middleware ''m'']) ''a/b''
           (log_ctx_handler ''h''))
        (Some (log_ctx_handler ''default''))"
  have m1: "match ''a/b'' ''c/d'' = Inr False"
    by (simp add: match_def routeIncludesTopic_def routeSplit_plain_example topicSplit_def)
  have s1: "StandardRouter_Route ?sr (publish ''c/d'' None) []
      = Inr (?sr, [''default''], [Default (log_handler ''default'')])"
    by (simp add: StandardRouter_Route_def Route_topic_def publish_def
        PublishFromPacketPublish_def RegisterHandler_def DefaultHandler_def
        NewStandardRouter_def m1 log_handler_def)
  have s2: "StandardRouter_Route ?sr (publish ''a/b'' None) []
      = Inr (?sr, [''h''], [Registered ''a/b'' (log_handler ''h'')])"
    by (simp add: StandardRouter_Route_def Route_topic_def publish_def
        PublishFromPacketPublish_def RegisterHandler_def DefaultHandler_def
        NewStandardRouter_def match_same log_handler_def)
  have c1: "Router_Route ?cr (publish ''c/d'' None) []
      = Inr (?cr, [''m-before'', ''default'', ''m-after''],
             [Default (log_middleware ''m'' (log_ctx_handler ''default''))])"
    by (simp add: Router_Route_def Route_topic_def publish_def
        PublishFromPacketPublish_def RegisterHandler_def DefaultHandler_def Router_Use_def
        NewRouter_def m1 Router_wrapHandler_foldr log_middleware_def log_ctx_handler_def)
  have c2: "StandardContextRouter_Route ?cr (publish ''c/d'' None) []
      = Inr (?cr, [''m-before'', ''default'', ''m-after''],
             [Default (log_middleware ''m'' (log_ctx_handler ''default''))])"
    by (simp add: StandardContextRouter_Route_def Route_topic_def publish_def
        PublishFromPacketPublish_def RegisterHandler_def DefaultHandler_def Router_Use_def
        NewRouter_def m1 StandardContextRouter_wrapHandler_foldr log_middleware_def
        log_ctx_handler_def)
  from default_handler_iff_no_registered_call
         [where r = ?sr and cr = ?cr and pb = "publish ''c/d'' None" and w = "[]"
            and r' = ?sr and w' = "[''default'']" and tr = "[Default (log_handler ''default'')]"
            and cr' = ?cr and cw' = "[''m-before'', ''default'', ''m-after'']"
            and ctr = "[Default (log_middleware ''m'' (log_ctx_handler ''default''))]"
            and sr' = ?cr and sw' = "[''m-before'', ''default'', ''m-after'']"
            and str = "[Default (log_middleware ''m'' (log_ctx_handler ''default''))]"]
       s1 s2 c1 c2
  show ?thesis by (simp add: publish_def routeSplit_plain_example)
qed

lemma Route_topic_alias:
  assumes "Properties pb = Some props" and "TopicAlias props = Some a"
  shows "Route_topic als pb m =
     Inr (if Topic pb \<noteq> [] then (als(a \<mapsto> Topic pb), Topic pb)
          else (als, case als a of Some t \<Rightarrow> t | None \<Rightarrow> []))"
  using assms by (simp add: Route_topic_def Let_def split: option.splits)

lemma StandardRouter_range_no_match:
  "\<forall>(f, hs) \<in> set subs. match f topic = Inr False \<Longrightarrow>
     StandardRouter_range subs topic m st = Inr st"
  by (induction subs arbitrary: st) auto

text \<open>
  C8. When the inbound publish carries an alias: if its topic name is not empty, the alias
  block stores alias \<open>\<mapsto>\<close> topic, over any earlier mapping, and the effective topic is that
  topic; if its topic name is empty, the cache is left as it is and the effective topic is
  the cached value, or empty when there is none. In \<^verbatim>\<open>StandardRouter.Route\<close> the alias map
  after the dispatch and the registered calls made are those of this effective topic. So a
  publish with alias \<open>a\<close> and topic \<open>x/y\<close> followed by a publish with alias \<open>a\<close> and the
  empty topic are both dispatched with the effective topic \<open>x/y\<close>, and a handler registered
  under \<open>x/y\<close> is called in both (both dispatches return when \<^verbatim>\<open>routeSplit\<close> returns for
  every registered filter).
\<close>

theorem alias_resolution:
  "(Properties pb = Some props \<and> TopicAlias props = Some a \<longrightarrow>
      Route_topic als pb m =
        Inr (if Topic pb \<noteq> [] then (als(a \<mapsto> Topic pb), Topic pb)
             else (als, case als a of Some t \<Rightarrow> t | None \<Rightarrow> [])))
   \<and> (StandardRouter_Route r pb w = Inr (r', w', tr)
        \<and> Properties pb = Some props \<and> TopicAlias props = Some a \<longrightarrow>
      aliases r' = (if Topic pb \<noteq> [] then (aliases r)(a \<mapsto> Topic pb) else aliases r)
      \<and> registered_calls tr =
          matching_calls (subscriptions r) (case aliases r' a of Some t \<Rightarrow> t | None \<Rightarrow> []))
   \<and> ((''x/y'', hs) \<in> set (subscriptions r) \<and> h \<in> set hs
        \<and> (\<forall>(f, hs) \<in> set (subscriptions r). \<exists>levels. routeSplit f = Inr levels) \<longrightarrow>
      (\<exists>r1 w1 tr1 r2 w2 tr2.
          StandardRouter_Route r (publish ''x/y'' (Some a)) w = Inr (r1, w1, tr1)
        \<and> StandardRouter_Route r1 (publish [] (Some a)) w1 = Inr (r2, w2, tr2)
        \<and> aliases r1 a = Some ''x/y'' \<and> aliases r2 a = Some ''x/y''
        \<and> registered_calls tr1 = matching_calls (subscriptions r) ''x/y''
        \<and> registered_calls tr2 = matching_calls (subscriptions r) ''x/y''
        \<and> (''x/y'', h) \<in> set (registered_calls tr1)
        \<and> (''x/y'', h) \<in> set (registered_calls tr2)))"
proof -
  have block: "Properties pb = Some props \<and> TopicAlias props = Some a \<longrightarrow>
      Route_topic als pb m =
        Inr (if Topic pb \<noteq> [] then (als(a \<mapsto> Topic pb), Topic pb)
             else (als, case als a of Some t \<Rightarrow> t | None \<Rightarrow> []))"
    using Route_topic_alias by blast
  have calls: "aliases r0' = (if Topic pb0 \<noteq> [] then (aliases r0)(a \<mapsto> Topic pb0) else aliases r0)
      \<and> registered_calls tr0 =
          matching_calls (subscriptions r0) (case aliases r0' a of Some t \<Rightarrow> t | None \<Rightarrow> [])"
    if run: "StandardRouter_Route r0 pb0 w0 = Inr (r0', w0', tr0)"
      and props: "Properties pb0 = Some props0" "TopicAlias props0 = Some a"
    for r0 r0' :: "'a MessageHandler StandardRouter" and pb0 w0 w0' tr0 props0
  proof -
    from StandardRouter_Route_result [OF run] obtain als0 topic where
      rt: "Route_topic (aliases r0) pb0 (PublishFromPacketPublish pb0) = Inr (als0, topic)"
      and r0': "r0' = r0\<lparr>aliases := als0\<rparr>"
      and tr0: "tr0 = map (\<lambda>(route, h). Registered route h)
                       (matching_calls (subscriptions r0) topic)
           @ (if matching_calls (subscriptions r0) topic = [] \<and> defaultHandler r0 \<noteq> None
              then [Default (the (defaultHandler r0))] else [])"
      by blast
    from tr0 have reg: "registered_calls tr0 = matching_calls (subscriptions r0) topic"
      by (simp add: registered_calls_append registered_calls_Registered)
    from rt Route_topic_alias [OF props, of "aliases r0" "PublishFromPacketPublish pb0"]
    have "(als0, topic) = (if Topic pb0 \<noteq> [] then ((aliases r0)(a \<mapsto> Topic pb0), Topic pb0)
          else (aliases r0, case aliases r0 a of Some t \<Rightarrow> t | None \<Rightarrow> []))"
      by simp
    with r0' reg show ?thesis by (auto split: if_splits)
  qed
  have scenario: "\<exists>r1 w1 tr1 r2 w2 tr2.
          StandardRouter_Route r (publish ''x/y'' (Some a)) w = Inr (r1, w1, tr1)
        \<and> StandardRouter_Route r1 (publish [] (Some a)) w1 = Inr (r2, w2, tr2)
        \<and> aliases r1 a = Some ''x/y'' \<and> aliases r2 a = Some ''x/y''
        \<and> registered_calls tr1 = matching_calls (subscriptions r) ''x/y''
        \<and> registered_calls tr2 = matching_calls (subscriptions r) ''x/y''
        \<and> (''x/y'', h) \<in> set (registered_calls tr1)
        \<and> (''x/y'', h) \<in> set (registered_calls tr2)"
    if reg: "(''x/y'', hs) \<in> set (subscriptions r)" "h \<in> set hs"
      and ok: "\<forall>(f, hs) \<in> set (subscriptions r). \<exists>levels. routeSplit f = Inr levels"
  proof -
    have p1: "Properties (publish ''x/y'' (Some a)) = Some \<lparr>TopicAlias = Some a\<rparr>"
      and p2: "Properties (publish [] (Some a)) = Some \<lparr>TopicAlias = Some a\<rparr>"
      and t1: "Topic (publish ''x/y'' (Some a)) = ''x/y''"
      and t2: "Topic (publish [] (Some a)) = []"
      by (simp_all add: publish_def)
    from p1 ok obtain r1 w1 tr1 where
      run1: "StandardRouter_Route r (publish ''x/y'' (Some a)) w = Inr (r1, w1, tr1)"
      using StandardRouter_Route_returns [of "publish ''x/y'' (Some a)" r w] by auto
    from calls [OF run1 p1] t1
    have a1: "aliases r1 = (aliases r)(a \<mapsto> ''x/y'')"
      and c1: "registered_calls tr1 = matching_calls (subscriptions r) ''x/y''"
      by simp_all
    from StandardRouter_Route_result [OF run1] have subs1: "subscriptions r1 = subscriptions r"
      by auto
    from p2 ok subs1 obtain r2 w2 tr2 where
      run2: "StandardRouter_Route r1 (publish [] (Some a)) w1 = Inr (r2, w2, tr2)"
      using StandardRouter_Route_returns [of "publish [] (Some a)" r1 w1] by auto
    from calls [OF run2 p2] t2 a1 subs1
    have a2: "aliases r2 = aliases r1"
      and c2: "registered_calls tr2 = matching_calls (subscriptions r) ''x/y''"
      by simp_all
    from reg have mem: "(''x/y'', h) \<in> set (matching_calls (subscriptions r) ''x/y'')"
      by (rule matching_calls_member) (rule match_same)
    from run1 run2 a1 a2 c1 c2 mem show ?thesis by auto
  qed
  from block calls scenario show ?thesis by blast
qed

theorem alias_resolution_witness:
  "StandardRouter_Route (RegisterHandler NewStandardRouter ''x/y'' (log_handler ''h''))
      (publish ''x/y'' (Some 7)) []
    = Inr ((RegisterHandler NewStandardRouter ''x/y'' (log_handler ''h''))
             \<lparr>aliases := [7 \<mapsto> ''x/y'']\<rparr>,
           [''h''], [Registered ''x/y'' (log_handler ''h'')])
   \<and> StandardRouter_Route
      ((RegisterHandler NewStandardRouter ''x/y'' (log_handler ''h''))
         \<lparr>aliases := [7 \<mapsto> ''x/y'']\<rparr>)
      (publish [] (Some 7)) [''h'']
    = Inr ((RegisterHandler NewStandardRouter ''x/y'' (log_handler ''h''))
             \<lparr>aliases := [7 \<mapsto> ''x/y'']\<rparr>,
           [''h'', ''h''], [Registered ''x/y'' (log_handler ''h'')])
   \<and> Route_topic Map.empty (publish [] (Some 7)) (PublishFromPacketPublish (publish [] (Some 7)))
    = Inr (Map.empty, [])
   \<and> Properties (publish ''x/y'' (Some 7)) = Some \<lparr>TopicAlias = Some 7\<rparr>
   \<and> (''x/y'', [log_handler ''h''])
        \<in> set (subscriptions (RegisterHandler NewStandardRouter ''x/y'' (log_handler ''h'')))
   \<and> routeSplit ''x/y'' = Inr [''x'', ''y'']"
proof -
  let ?r = "RegisterHandler NewStandardRouter ''x/y'' (log_handler ''h'')"
  let ?r1 = "?r\<lparr>aliases := [7 \<mapsto> ''x/y'']\<rparr>"
  have run1: "StandardRouter_Route ?r (publish ''x/y'' (Some 7)) []
      = Inr (?r1, [''h''], [Registered ''x/y'' (log_handler ''h'')])"
    by (simp add: StandardRouter_Route_def Route_topic_def publish_def
        PublishFromPacketPublish_def RegisterHandler_def NewStandardRouter_def match_same
        log_handler_def)
  have run2: "StandardRouter_Route ?r1 (publish [] (Some 7)) [''h'']
      = Inr (?r1, [''h'', ''h''], [Registered ''x/y'' (log_handler ''h'')])"
    by (simp add: StandardRouter_Route_def Route_topic_def publish_def
        PublishFromPacketPublish_def RegisterHandler_def NewStandardRouter_def match_same
        log_handler_def)
  have split: "routeSplit ''x/y'' = Inr [''x'', ''y'']"
    by (simp add: routeSplit_def strings_HasPrefix_def)
  from alias_resolution
         [where pb = "publish [] (Some 7)" and props = "\<lparr>TopicAlias = Some 7\<rparr>" and a = 7
            and als = Map.empty and m = "PublishFromPacketPublish (publish [] (Some 7))"
            and r = ?r and w = "[]" and hs = "[log_handler ''h'']" and h = "log_handler ''h''"
            and r' = ?r1 and w' = "[''h'']" and tr = "[Registered ''x/y'' (log_handler ''h'')]"]
       run1 run2 split
  show ?thesis by (simp add: publish_def RegisterHandler_def NewStandardRouter_def)
qed

text \<open>
  C3, as stated, fails: the filter \<open>#\<close> and the empty filter match the empty topic (so do
  \<^verbatim>\<open>$share/g\<close> and \<^verbatim>\<open>$share/g/#\<close>). A publish that carries only an alias with no cached
  mapping is dispatched with the empty effective topic, and a handler registered under \<open>#\<close>
  is called for it; the default handler is not.
\<close>

theorem empty_topic_counterexample:
  "match ''#'' [] = Inr True
   \<and> match [] [] = Inr True
   \<and> match ''$share/g/#'' [] = Inr True
   \<and> StandardRouter_Route
       (DefaultHandler (RegisterHandler NewStandardRouter ''#'' (log_handler ''h''))
          (Some (log_handler ''default'')))
       (publish [] (Some 1)) []
     = Inr (DefaultHandler (RegisterHandler NewStandardRouter ''#'' (log_handler ''h''))
              (Some (log_handler ''default'')),
            [''h''], [Registered ''#'' (log_handler ''h'')])"
proof -
  have m1: "match ''#'' [] = Inr True"
    by (simp add: match_def routeIncludesTopic_def routeSplit_def topicSplit_def
        strings_HasPrefix_def)
  have m2: "match [] [] = Inr True" by (simp add: match_def)
  have m3: "match ''$share/g/#'' [] = Inr True"
    by (simp add: match_def routeIncludesTopic_def routeSplit_def topicSplit_def
        strings_HasPrefix_def)
  have run: "StandardRouter_Route
       (DefaultHandler (RegisterHandler NewStandardRouter ''#'' (log_handler ''h''))
          (Some (log_handler ''default'')))
       (publish [] (Some 1)) []
     = Inr (DefaultHandler (RegisterHandler NewStandardRouter ''#'' (log_handler ''h''))
              (Some (log_handler ''default'')),
            [''h''], [Registered ''#'' (log_handler ''h'')])"
    by (simp add: StandardRouter_Route_def Route_topic_def publish_def
        PublishFromPacketPublish_def RegisterHandler_def DefaultHandler_def
        NewStandardRouter_def m1 log_handler_def)
  from m1 m2 m3 run show ?thesis by simp
qed

text \<open>
  C3, amended. The matcher rejects the empty topic exactly for the filters that are not
  empty and whose level sequence, after a shared-subscription prefix is removed, is not
  empty and does not begin with \<open>#\<close>. When a publish carries only an alias that has no
  cached mapping, its effective topic is empty; if every registered filter is of that kind,
  the dispatch calls no registered handler, calls the default handler (if set) with the
  message, and leaves the router as it was.
\<close>

theorem empty_topic_rejected:
  "(match f [] = Inr False \<longleftrightarrow>
      f \<noteq> [] \<and> (\<exists>l ls. routeSplit f = Inr (l # ls) \<and> l \<noteq> ''#''))
   \<and> (Properties pb = Some props \<and> TopicAlias props = Some a \<and> Topic pb = []
        \<and> aliases r a = None
        \<and> (\<forall>(f, hs) \<in> set (subscriptions r). match f [] = Inr False) \<longrightarrow>
      StandardRouter_Route r pb w =
        Inr (r,
             (case defaultHandler r of
                None \<Rightarrow> w | Some d \<Rightarrow> d (PublishFromPacketPublish pb) w),
             (case defaultHandler r of None \<Rightarrow> [] | Some d \<Rightarrow> [Default d])))"
proof -
  have run: "StandardRouter_Route r pb w =
        Inr (r,
             (case defaultHandler r of
                None \<Rightarrow> w | Some d \<Rightarrow> d (PublishFromPacketPublish pb) w),
             (case defaultHandler r of None \<Rightarrow> [] | Some d \<Rightarrow> [Default d]))"
    if props: "Properties pb = Some props" "TopicAlias props = Some a"
      and empty: "Topic pb = []" "aliases r a = None"
      and none: "\<forall>(f, hs) \<in> set (subscriptions r). match f [] = Inr False"
  proof -
    from Route_topic_alias [OF props, of "aliases r" "PublishFromPacketPublish pb"] empty
    have rt: "Route_topic (aliases r) pb (PublishFromPacketPublish pb) = Inr (aliases r, [])"
      by simp
    have same: "r\<lparr>aliases := aliases r\<rparr> = r" by simp
    from none have "StandardRouter_range (subscriptions r) [] (PublishFromPacketPublish pb)
        (False, w, []) = Inr (False, w, [])"
      by (rule StandardRouter_range_no_match)
    with rt same show ?thesis
      by (cases "defaultHandler r") (simp_all add: StandardRouter_Route_def Let_def)
  qed
  with match_empty_topic [of f] show ?thesis by blast
qed

theorem empty_topic_rejected_witness:
  "match ''a/b'' [] = Inr False
   \<and> routeSplit ''a/b'' = Inr [''a'', ''b'']
   \<and> StandardRouter_Route
       (DefaultHandler (RegisterHandler NewStandardRouter ''a/b'' (log_handler ''h''))
          (Some (log_handler ''default'')))
       (publish [] (Some 1)) []
     = Inr (DefaultHandler (RegisterHandler NewStandardRouter ''a/b'' (log_handler ''h''))
              (Some (log_handler ''default'')),
            [''default''], [Default (log_handler ''default'')])"
proof -
  have m: "match ''a/b'' [] = Inr False"
    by (simp add: match_def routeIncludesTopic_def routeSplit_plain_example topicSplit_def)
  from empty_topic_rejected
         [where f = "''a/b''" and pb = "publish [] (Some 1)"
            and props = "\<lparr>TopicAlias = Some 1\<rparr>" and a = 1 and w = "[]"
            and r = "DefaultHandler
                       (RegisterHandler NewStandardRouter ''a/b'' (log_handler ''h''))
                       (Some (log_handler ''default''))"]
       m
  show ?thesis
    by (simp add: publish_def RegisterHandler_def DefaultHandler_def NewStandardRouter_def
        PublishFromPacketPublish_def log_handler_def routeSplit_plain_example)
qed

section \<open>Theorems about the lock\<close>

lemma Route_actions_no_Lock: "Lock \<notin> set (Route_actions pb)"
  by (auto simp: Route_actions_def split: option.splits)

lemma Route_actions_sequential:
  assumes "Route_topic als pb m = Inr (als', topic)"
  shows "run \<lparr>mu = \<lparr>readers = 0, writer = False\<rparr>, shared_aliases = als,
              goroutines = [Route_actions pb]\<rparr>
           (replicate (length (Route_actions pb)) 0)
         = Some \<lparr>mu = \<lparr>readers = 0, writer = False\<rparr>, shared_aliases = als',
                  goroutines = [[]]\<rparr>"
proof (cases "Properties pb")
  case None
  with assms show ?thesis by (simp add: Route_topic_def)
next
  case (Some props)
  show ?thesis
  proof (cases "TopicAlias props")
    case None
    with Some assms show ?thesis
      by (simp add: Route_topic_def Route_actions_def step_def)
  next
    case (Some a)
    note a = this
    show ?thesis
    proof (cases "Topic pb = []")
      case True
      with \<open>Properties pb = Some props\<close> a assms show ?thesis
        by (auto simp: Route_topic_def Route_actions_def step_def split: option.splits)
    next
      case False
      with \<open>Properties pb = Some props\<close> a assms show ?thesis
        by (auto simp: Route_topic_def Route_actions_def step_def split: option.splits)
    qed
  qed
qed

lemma perform_no_writer:
  assumes "perform act l als = Some (l', als')" and "act \<noteq> Lock" and "\<not> writer l"
  shows "\<not> writer l'"
  using assms by (cases act) (auto split: if_splits)

lemma step_no_writer:
  assumes "step s i = Some s'"
    and "\<not> writer (mu s)" and "\<forall>p \<in> set (goroutines s). Lock \<notin> set p"
  shows "\<not> writer (mu s') \<and> (\<forall>p \<in> set (goroutines s'). Lock \<notin> set p)"
proof -
  from assms(1) obtain act rest l als where
    i: "i < length (goroutines s)" and cur: "goroutines s ! i = act # rest"
    and p: "perform act (mu s) (shared_aliases s) = Some (l, als)"
    and s': "s' = \<lparr>mu = l, shared_aliases = als, goroutines = (goroutines s)[i := rest]\<rparr>"
    by (auto simp: step_def split: if_splits list.splits option.splits)
  from i cur have mem: "act # rest \<in> set (goroutines s)" by (metis nth_mem)
  with assms(3) have "act \<noteq> Lock" and rest: "Lock \<notin> set rest" by auto
  with p assms(2) have "\<not> writer l" using perform_no_writer by blast
  moreover have "\<forall>p \<in> set ((goroutines s)[i := rest]). Lock \<notin> set p"
  proof
    fix p assume "p \<in> set ((goroutines s)[i := rest])"
    then have "p = rest \<or> p \<in> set (goroutines s)"
      using set_update_subset_insert [of "goroutines s" i rest] by auto
    with rest assms(3) show "Lock \<notin> set p" by auto
  qed
  ultimately show ?thesis using s' by simp
qed

lemma Route_never_exclusive:
  assumes "run s schedule = Some s'"
    and "\<not> writer (mu s)" and "\<forall>p \<in> set (goroutines s). \<exists>pb. p = Route_actions pb"
  shows "\<not> writer (mu s')"
proof -
  have "\<not> writer (mu s') \<and> (\<forall>p \<in> set (goroutines s'). Lock \<notin> set p)"
    if "run s schedule = Some s'" "\<not> writer (mu s)" "\<forall>p \<in> set (goroutines s). Lock \<notin> set p"
    for s
    using that
  proof (induction schedule arbitrary: s)
    case Nil
    then show ?case by simp
  next
    case (Cons i schedule)
    from Cons.prems(1) obtain s1 where s1: "step s i = Some s1" "run s1 schedule = Some s'"
      by (auto split: option.splits)
    from step_no_writer [OF s1(1) Cons.prems(2,3)] Cons.IH [OF s1(2)] show ?case by simp
  qed
  moreover from assms(3) have "\<forall>p \<in> set (goroutines s). Lock \<notin> set p"
    using Route_actions_no_Lock by auto
  ultimately show ?thesis using assms(1,2) by blast
qed

text \<open>
  C4. Two goroutines dispatch, on one router, a publish with alias 1 and topic \<open>x/y\<close>.
  Each takes the read lock, which the other does not block. In the state reached the lock
  is held in read mode twice and in write mode by nobody, and the next action of each
  goroutine is the store to \<^verbatim>\<open>r.aliases[1]\<close>: the alias map is mutated under the shared
  lock only, and the two stores race.
\<close>

theorem alias_store_under_read_lock:
  "Route_actions (publish ''x/y'' (Some 1))
     = [RLock, AliasStore 1 ''x/y'', AliasLoad 1, RUnlock]
   \<and> run \<lparr>mu = \<lparr>readers = 0, writer = False\<rparr>, shared_aliases = Map.empty,
           goroutines = [Route_actions (publish ''x/y'' (Some 1)),
                         Route_actions (publish ''x/y'' (Some 1))]\<rparr>
        [0, Suc 0]
     = Some \<lparr>mu = \<lparr>readers = 2, writer = False\<rparr>, shared_aliases = Map.empty,
             goroutines = [[AliasStore 1 ''x/y'', AliasLoad 1, RUnlock],
                           [AliasStore 1 ''x/y'', AliasLoad 1, RUnlock]]\<rparr>
   \<and> data_race \<lparr>mu = \<lparr>readers = 2, writer = False\<rparr>, shared_aliases = Map.empty,
             goroutines = [[AliasStore 1 ''x/y'', AliasLoad 1, RUnlock],
                           [AliasStore 1 ''x/y'', AliasLoad 1, RUnlock]]\<rparr>"
proof -
  have acts: "Route_actions (publish ''x/y'' (Some 1))
     = [RLock, AliasStore 1 ''x/y'', AliasLoad 1, RUnlock]"
    by (simp add: Route_actions_def publish_def)
  have steps: "run \<lparr>mu = \<lparr>readers = 0, writer = False\<rparr>, shared_aliases = Map.empty,
           goroutines = [[RLock, AliasStore 1 ''x/y'', AliasLoad 1, RUnlock],
                         [RLock, AliasStore 1 ''x/y'', AliasLoad 1, RUnlock]]\<rparr>
        [0, Suc 0]
     = Some \<lparr>mu = \<lparr>readers = 2, writer = False\<rparr>, shared_aliases = Map.empty,
             goroutines = [[AliasStore 1 ''x/y'', AliasLoad 1, RUnlock],
                           [AliasStore 1 ''x/y'', AliasLoad 1, RUnlock]]\<rparr>"
    by (simp add: step_def)
  have race: "data_race \<lparr>mu = \<lparr>readers = 2, writer = False\<rparr>, shared_aliases = Map.empty,
             goroutines = [[AliasStore 1 ''x/y'', AliasLoad 1, RUnlock],
                           [AliasStore 1 ''x/y'', AliasLoad 1, RUnlock]]\<rparr>"
    unfolding data_race_def
    by (rule exI [of _ 0], simp, rule exI [of _ "Suc 0"], simp)
  from acts steps race show ?thesis by simp
qed

end
